theory Spec2Isabelle
  imports Complex_Main
begin

section \<open>HTTP Accept header negotiation (HttpAcceptParser)\<close>

text \<open>
  A shallow embedding of \<^verbatim>\<open>HttpAcceptParser.cpp\<close>. A \<^verbatim>\<open>std::string\<close> is a list of
  8-bit characters, a \<^verbatim>\<open>std::vector\<close> is a list, the \<^verbatim>\<open>int\<close> counter \<^verbatim>\<open>order\<close> is an
  unbounded integer (it counts comma tokens, far below \<open>2^31\<close>).
\<close>

subsection \<open>Single-precision values and their comparisons\<close>

text \<open>
  The program never does arithmetic on a \<^verbatim>\<open>float\<close>: it stores the result of
  \<^verbatim>\<open>std::stof\<close> or a literal, and compares. A \<^verbatim>\<open>float\<close> is therefore modelled by its
  value: a rational number (every finite binary32 value is one; \<open>+0\<close> and \<open>-0\<close> compare
  equal and are both \<open>Fin 0\<close>), an infinity, or NaN. The comparisons are the IEEE ones:
  every ordered comparison with NaN is false and \<^verbatim>\<open>!=\<close> with NaN is true.
\<close>

datatype cfloat = NaN | MInf | Fin rat | PInf

fun f_less :: "cfloat \<Rightarrow> cfloat \<Rightarrow> bool" where
  "f_less NaN _ = False"
| "f_less _ NaN = False"
| "f_less MInf MInf = False"
| "f_less MInf _ = True"
| "f_less (Fin x) (Fin y) = (x < y)"
| "f_less (Fin x) PInf = True"
| "f_less (Fin x) MInf = False"
| "f_less PInf _ = False"

definition f_greater :: "cfloat \<Rightarrow> cfloat \<Rightarrow> bool" where
  "f_greater a b = f_less b a"

fun f_eq :: "cfloat \<Rightarrow> cfloat \<Rightarrow> bool" where
  "f_eq NaN _ = False"
| "f_eq _ NaN = False"
| "f_eq a b = (a = b)"

definition f_neq :: "cfloat \<Rightarrow> cfloat \<Rightarrow> bool" where
  "f_neq a b = (\<not> f_eq a b)"

text \<open>
  The literal \<^verbatim>\<open>0.001f\<close> is the binary32 value nearest to one thousandth,
  \<open>8589935 / 2^33\<close>, slightly above it.
\<close>

definition lit_0_001f :: rat where
  "lit_0_001f = 8589935 / 8589934592"

text \<open>
  The finite binary32 values: \<open>m * 2^e\<close> with \<open>|m| < 2^24\<close> and \<open>-149 \<le> e \<le> 104\<close>.
\<close>

definition is_binary32 :: "rat \<Rightarrow> bool" where
  "is_binary32 r \<longleftrightarrow>
     (\<exists>m::int. \<exists>e::nat. \<bar>m\<bar> < 2 ^ 24 \<and> e \<le> 149 \<and> r = of_int m / 2 ^ e) \<or>
     (\<exists>m::int. \<exists>e::nat. \<bar>m\<bar> < 2 ^ 24 \<and> e \<le> 104 \<and> r = of_int m * 2 ^ e)"

subsection \<open>The library conversion \<^verbatim>\<open>std::stof\<close>\<close>

text \<open>
  \<^verbatim>\<open>std::stof\<close> belongs to the C++ library, not to this program. It is a parameter
  \<open>stof\<close> of the model: a function from strings to either the exception it throws or
  the value it returns. \<^verbatim>\<open>stringToFloat\<close> catches every exception and reports it as
  \<^verbatim>\<open>false\<close>, leaving \<^verbatim>\<open>*f\<close> untouched; the model returns \<open>None\<close> there.
\<close>

datatype stof_error = invalid_argument | out_of_range

type_synonym stof_fun = "string \<Rightarrow> stof_error + cfloat"

definition stringToFloat :: "stof_fun \<Rightarrow> string \<Rightarrow> cfloat option" where
  "stringToFloat stof s = (case stof s of Inl _ \<Rightarrow> None | Inr f \<Rightarrow> Some f)"

text \<open>
  For evaluating the program on concrete headers: \<^verbatim>\<open>std::stof\<close> on a few strings whose
  value is exact in binary32, on \<^verbatim>\<open>nan\<close>, and on strings with no numeric prefix. The
  answer on any string outside this table is a placeholder and no example relies on it;
  every general theorem below holds for an arbitrary \<open>stof\<close>.
\<close>

definition stof_sample :: stof_fun where
  "stof_sample s =
    (if s = ''0'' then Inr (Fin 0)
     else if s = ''0.0'' then Inr (Fin 0)
     else if s = ''1'' then Inr (Fin 1)
     else if s = ''0.5'' then Inr (Fin (1 / 2))
     else if s = ''0.25'' then Inr (Fin (1 / 4))
     else if s = ''0.75'' then Inr (Fin (3 / 4))
     else if s = ''2'' then Inr (Fin 2)
     else if s = ''nan'' then Inr NaN
     else Inl invalid_argument)"

subsection \<open>String helpers\<close>

definition charsToTrim :: string where
  "charsToTrim = [CHR '' '', CHR 0x09, CHR 0x0A, CHR 0x0D, CHR 0x0C, CHR 0x0B]"

text \<open>\<^verbatim>\<open>s.erase(s.find_last_not_of(t) + 1)\<close>: when every character is in \<open>t\<close> the
  index is \<^verbatim>\<open>npos\<close>, \<^verbatim>\<open>npos + 1\<close> wraps to 0 and the whole string is erased.\<close>

definition rtrim :: "string \<Rightarrow> string \<Rightarrow> string" where
  "rtrim s t = rev (dropWhile (\<lambda>c. c \<in> set t) (rev s))"

text \<open>\<^verbatim>\<open>s.erase(0, s.find_first_not_of(t))\<close>: with \<^verbatim>\<open>npos\<close> the whole string is erased.\<close>

definition ltrim :: "string \<Rightarrow> string \<Rightarrow> string" where
  "ltrim s t = dropWhile (\<lambda>c. c \<in> set t) s"

definition trim :: "string \<Rightarrow> string" where
  "trim s = ltrim (rtrim s charsToTrim) charsToTrim"

text \<open>\<^verbatim>\<open>std::tolower\<close> in the default "C" locale: only \<^verbatim>\<open>A\<close>..\<^verbatim>\<open>Z\<close> change.\<close>

definition tolower :: "char \<Rightarrow> char" where
  "tolower c =
     (if (65::nat) \<le> of_char c \<and> of_char c \<le> (90::nat)
      then char_of (of_char c + (32::nat)) else c)"

definition stringToLower :: "string \<Rightarrow> string" where
  "stringToLower s = map tolower s"

text \<open>\<^verbatim>\<open>s.find(c)\<close>: the index of the first occurrence, \<open>None\<close> for \<^verbatim>\<open>npos\<close>.\<close>

definition find_char :: "char \<Rightarrow> string \<Rightarrow> nat option" where
  "find_char c s = (if c \<in> set s then Some (length (takeWhile (\<lambda>x. x \<noteq> c) s)) else None)"

text \<open>
  All the strings that successive calls of \<^verbatim>\<open>std::getline(stream, tok, d)\<close> deliver
  until the call fails. \<open>cur\<close> holds the characters of the current piece. A call at end
  of input that extracts nothing fails, so a final delimiter yields no empty last piece
  and the empty input yields no piece at all.
\<close>

fun getlines :: "char \<Rightarrow> string \<Rightarrow> string \<Rightarrow> string list" where
  "getlines d cur [] = (if cur = [] then [] else [cur])"
| "getlines d cur (c # cs) =
     (if c = d then cur # getlines d [] cs else getlines d (cur @ [c]) cs)"

subsection \<open>The parsed content type\<close>

record ParsedContentType =
  range_str :: string
  type :: string
  subtype :: string
  qvalue :: cfloat
  order :: int

subsection \<open>Parsing one comma token\<close>

text \<open>Lines 84 to 95: the treatment of a successfully converted quality value.\<close>

definition normalizeQ :: "cfloat \<Rightarrow> cfloat" where
  "normalizeQ q =
     (if (f_less q (Fin lit_0_001f) \<and> f_neq q (Fin 0)) \<or> f_greater q (Fin 1) then Fin 1
      else if f_eq q (Fin 0) then Fin (- 1)
      else q)"

text \<open>
  One iteration of the loop over the semicolon pieces of a token. The state is the
  content type under construction and \<^verbatim>\<open>isFirstParameter\<close>; \<open>None\<close> stands for
  \<^verbatim>\<open>contentTypeIsAccepted = false\<close>, after which the loop stops and the token is dropped.
\<close>

definition parseParam ::
  "stof_fun \<Rightarrow> ParsedContentType \<times> bool \<Rightarrow> string \<Rightarrow> (ParsedContentType \<times> bool) option" where
  "parseParam stof st param0 =
     (let ct = fst st; isFirstParameter = snd st; param = trim param0 in
      if isFirstParameter then
        (let rng = stringToLower param in
         case find_char CHR ''/'' rng of
           None \<Rightarrow> None
         | Some indexSlash \<Rightarrow>
             (let ty = take indexSlash rng; sub = drop (indexSlash + 1) rng in
              if ty = ''*'' \<and> sub \<noteq> ''*'' then None
              else Some (ct\<lparr>range_str := rng, type := ty, subtype := sub\<rparr>, False)))
      else
        (case find_char CHR ''='' param of
           None \<Rightarrow> None
         | Some indexEqual \<Rightarrow>
             (let key = trim (take indexEqual param);
                  val = trim (drop (indexEqual + 1) param) in
              if key = ''q'' \<or> key = ''Q'' then
                (case stringToFloat stof val of
                   None \<Rightarrow> None
                 | Some raw \<Rightarrow> Some (ct\<lparr>qvalue := normalizeQ raw\<rparr>, False))
              else Some (ct, False))))"

fun paramLoop ::
  "stof_fun \<Rightarrow> ParsedContentType \<times> bool \<Rightarrow> string list \<Rightarrow> (ParsedContentType \<times> bool) option" where
  "paramLoop stof st [] = Some st"
| "paramLoop stof st (p # ps) =
     (case parseParam stof st p of None \<Rightarrow> None | Some st' \<Rightarrow> paramLoop stof st' ps)"

text \<open>
  The body of the outer loop for the token at position \<open>n\<close>. \<^verbatim>\<open>trim(contentType.range)\<close>
  trims the stored token in place before the pieces are read from it.
\<close>

definition parseToken :: "stof_fun \<Rightarrow> int \<Rightarrow> string \<Rightarrow> ParsedContentType option" where
  "parseToken stof n token =
     (let t = trim token;
          ct = \<lparr>range_str = t, type = [], subtype = [], qvalue = Fin 1, order = n\<rparr> in
      case paramLoop stof (ct, True) (getlines CHR '';'' [] t) of
        None \<Rightarrow> None
      | Some st \<Rightarrow> Some (fst st))"

fun parseTokens :: "stof_fun \<Rightarrow> int \<Rightarrow> string list \<Rightarrow> ParsedContentType list" where
  "parseTokens stof n [] = []"
| "parseTokens stof n (t # ts) =
     (case parseToken stof n t of
        None \<Rightarrow> parseTokens stof (n + 1) ts
      | Some ct \<Rightarrow> ct # parseTokens stof (n + 1) ts)"

text \<open>The accepted content types of a header, before sorting.\<close>

definition acceptedContentTypes :: "stof_fun \<Rightarrow> string \<Rightarrow> ParsedContentType list" where
  "acceptedContentTypes stof acceptValue = parseTokens stof 0 (getlines CHR '','' [] acceptValue)"

subsection \<open>The comparator\<close>

definition compareContentTypes :: "ParsedContentType \<Rightarrow> ParsedContentType \<Rightarrow> bool" where
  "compareContentTypes a b =
     (if f_neq (qvalue a) (qvalue b) then f_greater (qvalue a) (qvalue b)
      else if type a \<noteq> type b then
        (if type a = ''*'' then True
         else if type b = ''*'' then False
         else order a < order b)
      else if subtype a \<noteq> subtype b then
        (if subtype a = ''*'' then True
         else if subtype b = ''*'' then False
         else order a < order b)
      else order a < order b)"

subsection \<open>The library algorithm \<^verbatim>\<open>std::sort\<close>\<close>

text \<open>
  \<^verbatim>\<open>std::sort\<close> belongs to the C++ library and is specified only for a comparator
  that is a strict weak ordering. On a range of at most 16 elements libstdc++ runs an
  insertion sort: each element in turn goes to the front if it compares before the
  first element, and otherwise moves left past the elements it compares before
  (\<^verbatim>\<open>__unguarded_linear_insert\<close>, here on the reversed prefix).
\<close>

fun linear_insert :: "('a \<Rightarrow> 'a \<Rightarrow> bool) \<Rightarrow> 'a \<Rightarrow> 'a list \<Rightarrow> 'a list" where
  "linear_insert cmp val [] = [val]"
| "linear_insert cmp val (y # ys) =
     (if cmp val y then y # linear_insert cmp val ys else val # y # ys)"

definition insert_step :: "('a \<Rightarrow> 'a \<Rightarrow> bool) \<Rightarrow> 'a list \<Rightarrow> 'a \<Rightarrow> 'a list" where
  "insert_step cmp pre val =
     (case pre of
        [] \<Rightarrow> [val]
      | first # _ \<Rightarrow>
          if cmp val first then val # pre
          else rev (linear_insert cmp val (rev pre)))"

definition insertion_sort :: "('a \<Rightarrow> 'a \<Rightarrow> bool) \<Rightarrow> 'a list \<Rightarrow> 'a list" where
  "insertion_sort cmp xs = foldl (insert_step cmp) [] xs"

text \<open>
  Above 16 elements \<^verbatim>\<open>std::sort\<close> partitions the range first (introsort), and what
  it returns for a comparator that is not a strict weak ordering is not specified. That
  part of the library is a parameter \<open>lib\<close> of the model, as \<^verbatim>\<open>std::stof\<close> is:
  a theorem says what it assumes of \<open>lib\<close>, and nothing is assumed otherwise. The
  closed examples below have at most 16 entries and never consult \<open>lib\<close>; they pass
  \<open>insertion_sort\<close> for it.
\<close>

type_synonym 'a sort_fun = "('a \<Rightarrow> 'a \<Rightarrow> bool) \<Rightarrow> 'a list \<Rightarrow> 'a list"

definition std_sort :: "'a sort_fun \<Rightarrow> ('a \<Rightarrow> 'a \<Rightarrow> bool) \<Rightarrow> 'a list \<Rightarrow> 'a list" where
  "std_sort lib cmp xs = (if length xs \<le> 16 then insertion_sort cmp xs else lib cmp xs)"

subsection \<open>Negotiation\<close>

text \<open>
  One iteration of the scan over the accepted content types for one candidate: the
  state is the candidate's quality and \<^verbatim>\<open>matchFound\<close>.
\<close>

definition matchStep ::
  "ParsedContentType \<Rightarrow> cfloat \<times> bool \<Rightarrow> ParsedContentType \<Rightarrow> cfloat \<times> bool" where
  "matchStep sel st acc =
     (let matchFound = snd st in
      if type acc = type sel \<and>
         (subtype acc = subtype sel \<or> (subtype acc = ''*'' \<and> \<not> matchFound))
      then (qvalue acc, True)
      else if type acc = ''*'' \<and> \<not> matchFound then (qvalue acc, matchFound)
      else st)"

definition matchLoop ::
  "ParsedContentType \<Rightarrow> cfloat \<times> bool \<Rightarrow> ParsedContentType list \<Rightarrow> cfloat \<times> bool" where
  "matchLoop sel st accepted = foldl (matchStep sel) st accepted"

text \<open>
  The loop over the available content types. An entry without a slash is skipped by
  \<^verbatim>\<open>continue\<close> before \<^verbatim>\<open>order++\<close>, so \<open>n\<close> counts the candidates only.
\<close>

fun selectLoop :: "ParsedContentType list \<Rightarrow> int \<Rightarrow> string list \<Rightarrow> ParsedContentType list" where
  "selectLoop accepted n [] = []"
| "selectLoop accepted n (s # ss) =
     (let contentTypeStr = stringToLower (trim s) in
      case find_char CHR ''/'' contentTypeStr of
        None \<Rightarrow> selectLoop accepted n ss
      | Some indexSlash \<Rightarrow>
          (let sel = \<lparr>range_str = contentTypeStr,
                      type = take indexSlash contentTypeStr,
                      subtype = drop (indexSlash + 1) contentTypeStr,
                      qvalue = Fin 0, order = n\<rparr>
           in sel\<lparr>qvalue := fst (matchLoop sel (Fin 0, False) accepted)\<rparr>
                # selectLoop accepted (n + 1) ss))"

definition selectedContentTypes ::
  "ParsedContentType sort_fun \<Rightarrow> ParsedContentType list \<Rightarrow> string list \<Rightarrow> ParsedContentType list" where
  "selectedContentTypes lib accepted available =
     std_sort lib compareContentTypes (selectLoop accepted 0 available)"

definition getPreferableContentType ::
  "ParsedContentType sort_fun \<Rightarrow> ParsedContentType list \<Rightarrow> string list \<Rightarrow> string" where
  "getPreferableContentType lib accepted available =
     (case selectedContentTypes lib accepted available of
        c # _ \<Rightarrow> range_str c
      | [] \<Rightarrow> (case available of a # _ \<Rightarrow> a | [] \<Rightarrow> []))"

definition parse ::
  "stof_fun \<Rightarrow> ParsedContentType sort_fun \<Rightarrow> string \<Rightarrow> string list \<Rightarrow> string" where
  "parse stof lib acceptValue availableContentTypes =
     (if acceptValue = [] then
        (case availableContentTypes of a # _ \<Rightarrow> a | [] \<Rightarrow> [])
      else getPreferableContentType lib
             (std_sort lib compareContentTypes (acceptedContentTypes stof acceptValue))
             availableContentTypes)"

subsection \<open>Notions used to state the properties\<close>

text \<open>A value of the model that is a binary32 value (every infinity and NaN is).\<close>

definition representable :: "cfloat \<Rightarrow> bool" where
  "representable q = (case q of Fin r \<Rightarrow> is_binary32 r | _ \<Rightarrow> True)"

text \<open>
  The normalization as the specification words it, with the decimal bound one
  thousandth: zero becomes the sentinel, a value below the bound or above one becomes
  one, anything else is kept.
\<close>

definition normalize_spec :: "cfloat \<Rightarrow> cfloat" where
  "normalize_spec raw =
     (if f_eq raw (Fin 0) then Fin (- 1)
      else if f_less raw (Fin (1 / 1000)) \<or> f_greater raw (Fin 1) then Fin 1
      else raw)"

text \<open>Key and value of a semicolon piece, as the parameter branch splits it.\<close>

definition paramKey :: "string \<Rightarrow> string option" where
  "paramKey param0 =
     (let param = trim param0 in
      case find_char CHR ''='' param of
        None \<Rightarrow> None
      | Some indexEqual \<Rightarrow> Some (trim (take indexEqual param)))"

definition paramValue :: "string \<Rightarrow> string option" where
  "paramValue param0 =
     (let param = trim param0 in
      case find_char CHR ''='' param of
        None \<Rightarrow> None
      | Some indexEqual \<Rightarrow> Some (trim (drop (indexEqual + 1) param)))"

definition isQualityParam :: "string \<Rightarrow> bool" where
  "isQualityParam p = (paramKey p = Some ''q'' \<or> paramKey p = Some ''Q'')"



text \<open>
  An entry whose range splits at its first slash into type and subtype, a wildcard type
  having a wildcard subtype.
\<close>

definition splitsAtSlash :: "ParsedContentType \<Rightarrow> bool" where
  "splitsAtSlash e =
     (range_str e = type e @ ''/'' @ subtype e \<and> CHR ''/'' \<notin> set (type e) \<and>
      (type e \<noteq> ''*'' \<or> subtype e = ''*''))"

text \<open>The qualities the specification allows: the sentinel \<open>-1\<close>, or a value from one
  thousandth to one.\<close>

definition inSpecRange :: "cfloat \<Rightarrow> bool" where
  "inSpecRange q = (case q of Fin r \<Rightarrow> r = - 1 \<or> (1 / 1000 \<le> r \<and> r \<le> 1) | _ \<Rightarrow> False)"

text \<open>
  A comma token with a quality parameter that does not convert: one of its semicolon
  pieces after the media range has the key \<open>q\<close> or \<open>Q\<close> and a value on which
  \<^verbatim>\<open>std::stof\<close> throws.
\<close>

definition unparseableQ :: "stof_fun \<Rightarrow> string \<Rightarrow> bool" where
  "unparseableQ stof p =
     (isQualityParam p \<and>
      (case paramValue p of None \<Rightarrow> False | Some v \<Rightarrow> stringToFloat stof v = None))"

definition hasUnparseableQ :: "stof_fun \<Rightarrow> string \<Rightarrow> bool" where
  "hasUnparseableQ stof token =
     list_ex (unparseableQ stof) (tl (getlines CHR '';'' [] (trim token)))"

text \<open>The renumbering of the entries behind a removed token at position \<open>m\<close>.\<close>

definition bumpOrder :: "int \<Rightarrow> ParsedContentType \<Rightarrow> ParsedContentType" where
  "bumpOrder m e = (if m \<le> order e then e\<lparr>order := order e + 1\<rparr> else e)"

text \<open>A quality that is zero or more.\<close>

definition atLeastZero :: "cfloat \<Rightarrow> bool" where
  "atLeastZero q = (f_eq q (Fin 0) \<or> f_greater q (Fin 0))"

text \<open>
  The comparator as the specification words it: the higher quality first; on equal
  quality and different types, a wildcard type first and otherwise the smaller order;
  on equal types and different subtypes, a wildcard subtype first and otherwise the
  smaller order; otherwise the smaller order.
\<close>

definition precedes_spec :: "ParsedContentType \<Rightarrow> ParsedContentType \<Rightarrow> bool" where
  "precedes_spec a b =
     (f_greater (qvalue a) (qvalue b) \<or>
      (f_eq (qvalue a) (qvalue b) \<and>
       (if type a \<noteq> type b then
          (type a = ''*'' \<or> (type b \<noteq> ''*'' \<and> order a < order b))
        else if subtype a \<noteq> subtype b then
          (subtype a = ''*'' \<or> (subtype b \<noteq> ''*'' \<and> order a < order b))
        else order a < order b)))"

section \<open>Properties\<close>

text \<open>
  What a theorem may assume of the library sort above 16 elements: that it returns a
  rearrangement of its input; that, being a comparison sort, it commutes with a
  relabelling of the elements that leaves every comparison unchanged; that it meets
  the contract of \<^verbatim>\<open>std::sort\<close>, returning the sorted arrangement of a list of
  distinct elements that the comparator orders strictly and totally.
\<close>

definition keepsElements :: "'a sort_fun \<Rightarrow> bool" where
  "keepsElements lib \<longleftrightarrow> (\<forall>cmp xs. set (lib cmp xs) = set xs)"

definition commutesWithRelabelling :: "'a sort_fun \<Rightarrow> bool" where
  "commutesWithRelabelling lib \<longleftrightarrow>
     (\<forall>f cmp xs. (\<forall>a b. cmp (f a) (f b) = cmp a b) \<longrightarrow> lib cmp (map f xs) = map f (lib cmp xs))"

definition strictTotalOn :: "('a \<Rightarrow> 'a \<Rightarrow> bool) \<Rightarrow> 'a list \<Rightarrow> bool" where
  "strictTotalOn cmp xs \<longleftrightarrow>
     distinct xs \<and>
     (\<forall>x\<in>set xs. \<not> cmp x x) \<and>
     (\<forall>x\<in>set xs. \<forall>y\<in>set xs. x \<noteq> y \<longrightarrow> cmp x y \<or> cmp y x) \<and>
     (\<forall>x\<in>set xs. \<forall>y\<in>set xs. \<forall>z\<in>set xs. cmp x y \<longrightarrow> cmp y z \<longrightarrow> cmp x z)"

definition sortsStrictOrders :: "'a sort_fun \<Rightarrow> bool" where
  "sortsStrictOrders lib \<longleftrightarrow>
     (\<forall>cmp xs. strictTotalOn cmp xs \<longrightarrow> sorted_wrt cmp (lib cmp xs) \<and> set (lib cmp xs) = set xs)"

subsection \<open>The empty header\<close>

text \<open>
  C3. With the empty header string, parse returns the first available content type
  exactly as supplied (no trimming, no lowercasing) when the list is non-empty, and the
  empty string when the list is empty.
\<close>

theorem parse_empty_header:
  "parse stof lib [] (a # rest) = a \<and> parse stof lib [] [] = []"
  by (simp add: parse_def)

subsection \<open>Quality normalization\<close>

lemma lit_above_thousandth: "(1::rat) / 1000 < lit_0_001f"
  by (simp add: lit_0_001f_def)

text \<open>No binary32 value lies between one thousandth and the literal \<^verbatim>\<open>0.001f\<close>:
  below \<open>2^-9\<close> the values with exponent at least \<open>-33\<close> are the multiples of \<open>2^-33\<close>.\<close>

lemma binary32_small_exp:
  fixes m :: int and e :: nat
  assumes e: "e \<le> 33" and lt: "(of_int m :: rat) / 2 ^ e < lit_0_001f"
  shows "(of_int m :: rat) / 2 ^ e < 1 / 1000"
proof -
  define k :: int where "k = m * 2 ^ (33 - e)"
  have p: "(2::rat) ^ 33 = 2 ^ e * 2 ^ (33 - e)"
    using e by (simp flip: power_add)
  have r: "(of_int m :: rat) / 2 ^ e = of_int k / 2 ^ 33"
    unfolding k_def p by simp
  have "(of_int k :: rat) / 2 ^ 33 < 8589935 / 2 ^ 33"
    using lt unfolding r lit_0_001f_def by simp
  then have "(of_int k :: rat) < 8589935"
    by (simp add: divide_less_cancel)
  then have "k < 8589935" by linarith
  then have "k \<le> 8589934" by simp
  then have "(of_int k :: rat) \<le> 8589934" by linarith
  then have "(of_int k :: rat) / 2 ^ 33 \<le> 8589934 / 2 ^ 33"
    by (simp add: divide_le_cancel)
  also have "(8589934 :: rat) / 2 ^ 33 < 1 / 1000" by simp
  finally show ?thesis unfolding r .
qed

lemma binary32_large_exp:
  fixes m :: int and e :: nat
  assumes e: "34 \<le> e" and m: "\<bar>m\<bar> < 2 ^ 24"
  shows "(of_int m :: rat) / 2 ^ e < 1 / 1000"
proof -
  have "m < 16777216" using m by simp
  then have "(of_int m :: rat) < 16777216" by linarith
  then have "(of_int m :: rat) < 2 ^ 24" by simp
  then have "(of_int m :: rat) / 2 ^ e < 2 ^ 24 / 2 ^ e"
    by (simp add: divide_strict_right_mono)
  also have "(2::rat) ^ 24 / 2 ^ e \<le> 2 ^ 24 / 2 ^ 34"
  proof -
    have "(2::rat) ^ 34 \<le> 2 ^ e" using e by (intro power_increasing) simp_all
    then show ?thesis by (intro divide_left_mono) simp_all
  qed
  also have "(2::rat) ^ 24 / 2 ^ 34 < 1 / 1000" by simp
  finally show ?thesis .
qed

lemma binary32_whole:
  fixes m :: int and e :: nat
  assumes lt: "(of_int m :: rat) * 2 ^ e < lit_0_001f"
  shows "(of_int m :: rat) * 2 ^ e < 1 / 1000"
proof -
  have "(of_int m :: rat) * 2 ^ e = of_int (m * 2 ^ e)" by simp
  moreover have "lit_0_001f < 1" by (simp add: lit_0_001f_def)
  ultimately have "(of_int (m * 2 ^ e) :: rat) < 1" using lt by linarith
  then have "m * 2 ^ e < 1" by linarith
  then have "m * 2 ^ e \<le> 0" by simp
  then have "(of_int (m * 2 ^ e) :: rat) \<le> 0" by linarith
  then show ?thesis by simp
qed

lemma binary32_gap:
  assumes "is_binary32 r" and "r < lit_0_001f"
  shows "r < 1 / 1000"
proof -
  from assms(1) consider
      (frac) m :: int and e :: nat where "\<bar>m\<bar> < 2 ^ 24" "e \<le> 149" "r = of_int m / 2 ^ e"
    | (whole) m :: int and e :: nat where "\<bar>m\<bar> < 2 ^ 24" "e \<le> 104" "r = of_int m * 2 ^ e"
    unfolding is_binary32_def by blast
  then show ?thesis
  proof cases
    case frac
    show ?thesis
    proof (cases "e \<le> 33")
      case True
      then show ?thesis using binary32_small_exp [of e m] assms(2) frac(3) by simp
    next
      case False
      then have "34 \<le> e" by simp
      then show ?thesis using binary32_large_exp [of e m] frac(1,3) by simp
    qed
  next
    case whole
    then show ?thesis using binary32_whole [of m e] assms(2) by simp
  qed
qed

lemma f_less_thousandth:
  assumes "representable raw"
  shows "f_less raw (Fin lit_0_001f) = f_less raw (Fin (1 / 1000))"
proof (cases raw)
  case (Fin r)
  with assms have "is_binary32 r" by (simp add: representable_def)
  then have "r < lit_0_001f \<longleftrightarrow> r < 1 / 1000"
    using binary32_gap [of r] lit_above_thousandth by auto
  with Fin show ?thesis by simp
qed simp_all

lemma normalizeQ_spec:
  assumes "representable raw"
  shows "normalizeQ raw = normalize_spec raw"
  using f_less_thousandth [OF assms]
  by (cases raw) (auto simp: normalizeQ_def normalize_spec_def f_neq_def f_greater_def)

lemma parseParam_first:
  assumes "parseParam stof (ct, True) p = Some st'"
  shows "snd st' = False \<and> qvalue (fst st') = qvalue ct \<and> order (fst st') = order ct"
  using assms
  by (auto simp: parseParam_def Let_def split: option.splits if_splits)

lemma parseParam_other:
  assumes "parseParam stof (ct, False) p = Some st'" and "\<not> isQualityParam p"
  shows "st' = (ct, False)"
  using assms
  by (auto simp: parseParam_def isQualityParam_def paramKey_def Let_def
           split: option.splits if_splits)

lemma parseParam_quality:
  assumes "parseParam stof (ct, False) p = Some st'" and "isQualityParam p"
    and "paramValue p = Some v"
  shows "\<exists>raw. stringToFloat stof v = Some raw \<and> st' = (ct\<lparr>qvalue := normalizeQ raw\<rparr>, False)"
  using assms
  by (auto simp: parseParam_def isQualityParam_def paramKey_def paramValue_def Let_def
           split: option.splits if_splits)

lemma paramLoop_no_quality:
  assumes "paramLoop stof (ct, False) ps = Some st'" and "\<forall>p\<in>set ps. \<not> isQualityParam p"
  shows "st' = (ct, False)"
  using assms
proof (induction ps)
  case Nil
  then show ?case by simp
next
  case (Cons p ps)
  from Cons.prems(1) obtain st1 where s1: "parseParam stof (ct, False) p = Some st1"
    and l: "paramLoop stof st1 ps = Some st'"
    by (auto split: option.splits)
  from s1 Cons.prems(2) have "st1 = (ct, False)" by (simp add: parseParam_other)
  with l Cons show ?case by simp
qed

lemma parseToken_default_quality:
  assumes "parseToken stof n t = Some ct"
    and "\<forall>p\<in>set (tl (getlines CHR '';'' [] (trim t))). \<not> isQualityParam p"
  shows "qvalue ct = Fin 1"
proof (cases "getlines CHR '';'' [] (trim t)")
  case Nil
  with assms(1) show ?thesis by (auto simp: parseToken_def Let_def)
next
  case (Cons p ps)
  define ct0 where "ct0 = \<lparr>range_str = trim t, type = [], subtype = [], qvalue = Fin 1, order = n\<rparr>"
  from assms(1) Cons obtain st1 st2 where s1: "parseParam stof (ct0, True) p = Some st1"
    and l: "paramLoop stof st1 ps = Some st2" and c: "ct = fst st2"
    by (auto simp: parseToken_def Let_def ct0_def split: option.splits)
  from parseParam_first [OF s1] have q1: "qvalue (fst st1) = Fin 1" and f1: "snd st1 = False"
    by (simp_all add: ct0_def)
  from f1 have e1: "st1 = (fst st1, False)" by (cases st1) simp
  from assms(2) Cons have "\<forall>p\<in>set ps. \<not> isQualityParam p" by simp
  with l e1 paramLoop_no_quality [of stof "fst st1" ps st2] have "st2 = (fst st1, False)"
    by simp
  with c q1 show ?thesis by simp
qed

text \<open>
  C4. The quality stored for a range is a function of the converted value alone: on
  every binary32 value the code's normalization is the specified one (zero to the
  sentinel \<open>-1\<close>; below one thousandth and not zero, or above one, to \<open>1\<close>; anything else
  unchanged). A quality parameter that is accepted stores the normalization of the value
  \<^verbatim>\<open>std::stof\<close> returned for it, and a token that is accepted and has no quality
  parameter keeps the initial quality \<open>1\<close>.
\<close>

theorem quality_normalization:
  "(representable raw \<longrightarrow> normalizeQ raw = normalize_spec raw) \<and>
   (parseParam stof (ct, False) p = Some st' \<and> isQualityParam p \<and> paramValue p = Some v \<longrightarrow>
      (\<exists>r. stringToFloat stof v = Some r \<and> qvalue (fst st') = normalizeQ r)) \<and>
   (parseToken stof n t = Some ct' \<and>
      (\<forall>p\<in>set (tl (getlines CHR '';'' [] (trim t))). \<not> isQualityParam p) \<longrightarrow>
      qvalue ct' = Fin 1)"
proof (intro conjI impI)
  assume "representable raw"
  then show "normalizeQ raw = normalize_spec raw" by (rule normalizeQ_spec)
next
  assume a: "parseParam stof (ct, False) p = Some st' \<and> isQualityParam p \<and> paramValue p = Some v"
  then obtain r where "stringToFloat stof v = Some r" "st' = (ct\<lparr>qvalue := normalizeQ r\<rparr>, False)"
    using parseParam_quality [of stof ct p st' v] by blast
  then show "\<exists>r. stringToFloat stof v = Some r \<and> qvalue (fst st') = normalizeQ r" by auto
next
  assume "parseToken stof n t = Some ct' \<and>
      (\<forall>p\<in>set (tl (getlines CHR '';'' [] (trim t))). \<not> isQualityParam p)"
  then show "qvalue ct' = Fin 1" using parseToken_default_quality by blast
qed

lemma binary32_half: "is_binary32 (1 / 2)"
  unfolding is_binary32_def
  by (rule disjI1, rule exI [of _ 1], rule exI [of _ 1]) simp

theorem quality_normalization_witness:
  "normalizeQ (Fin (1 / 2)) = normalize_spec (Fin (1 / 2)) \<and>
   (\<exists>r. stringToFloat stof_sample ''0'' = Some r \<and>
      qvalue (fst (\<lparr>range_str = ''a/b'', type = ''a'', subtype = ''b'', qvalue = Fin (- 1), order = 0\<rparr>, False))
        = normalizeQ r) \<and>
   qvalue \<lparr>range_str = ''text/html'', type = ''text'', subtype = ''html'', qvalue = Fin 1, order = 0\<rparr> = Fin 1"
proof -
  have h1: "representable (Fin (1 / 2))"
    by (simp add: representable_def binary32_half)
  have h2: "parseParam stof_sample
              (\<lparr>range_str = ''a/b'', type = ''a'', subtype = ''b'', qvalue = Fin 1, order = 0\<rparr>, False)
              '' q = 0 '' =
            Some (\<lparr>range_str = ''a/b'', type = ''a'', subtype = ''b'', qvalue = Fin (- 1), order = 0\<rparr>, False)
          \<and> isQualityParam '' q = 0 '' \<and> paramValue '' q = 0 '' = Some ''0''"
    by code_simp
  have h3: "parseToken stof_sample 0 ''text/html; level=1'' =
              Some \<lparr>range_str = ''text/html'', type = ''text'', subtype = ''html'', qvalue = Fin 1, order = 0\<rparr>
            \<and> (\<forall>p\<in>set (tl (getlines CHR '';'' [] (trim ''text/html; level=1''))). \<not> isQualityParam p)"
    by code_simp
  from h1 h2 h3 show ?thesis
    using quality_normalization
      [of "Fin (1 / 2)" stof_sample
          "\<lparr>range_str = ''a/b'', type = ''a'', subtype = ''b'', qvalue = Fin 1, order = 0\<rparr>"
          "'' q = 0 ''"
          "(\<lparr>range_str = ''a/b'', type = ''a'', subtype = ''b'', qvalue = Fin (- 1), order = 0\<rparr>, False)"
          "''0''" 0 "''text/html; level=1''"
          "\<lparr>range_str = ''text/html'', type = ''text'', subtype = ''html'', qvalue = Fin 1, order = 0\<rparr>"]
    by blast
qed

subsection \<open>The scan over the accepted ranges\<close>





lemma selectLoop_ranges:
  "map range_str (selectLoop accepted n available) =
     filter (\<lambda>s. CHR ''/'' \<in> set s) (map (\<lambda>s. stringToLower (trim s)) available)"
proof (induction available arbitrary: n)
  case Nil
  show ?case by simp
next
  case (Cons s ss)
  show ?case
    using Cons.IH
    by (auto simp: Let_def find_char_def split: option.splits if_splits)
qed






subsection \<open>Auxiliary facts: the sort keeps the elements\<close>

lemma set_linear_insert: "set (linear_insert cmp v ys) = insert v (set ys)"
  by (induction ys) auto

lemma set_insert_step: "set (insert_step cmp pre v) = insert v (set pre)"
  by (cases pre) (auto simp: insert_step_def set_linear_insert)

lemma insertion_sort_snoc: "insertion_sort cmp (xs @ [x]) = insert_step cmp (insertion_sort cmp xs) x"
  by (simp add: insertion_sort_def)

lemma insertion_sort_Nil: "insertion_sort cmp [] = []"
  by (simp add: insertion_sort_def)

lemma set_insertion_sort: "set (insertion_sort cmp xs) = set xs"
  by (induction xs rule: rev_induct) (simp_all add: insertion_sort_Nil insertion_sort_snoc set_insert_step)

lemma insertion_sort_eq_Nil: "insertion_sort cmp xs = [] \<longleftrightarrow> xs = []"
  using set_insertion_sort [of cmp xs] by (metis set_empty)

lemma std_sort_small: "length xs \<le> 16 \<Longrightarrow> std_sort lib cmp xs = insertion_sort cmp xs"
  by (simp add: std_sort_def)

lemma std_sort_Nil: "std_sort lib cmp [] = []"
  by (simp add: std_sort_def insertion_sort_Nil)

lemma keepsElements_insertion_sort: "keepsElements insertion_sort"
  by (simp add: keepsElements_def set_insertion_sort)

lemma set_std_sort:
  assumes "keepsElements lib"
  shows "set (std_sort lib cmp xs) = set xs"
proof (cases "length xs \<le> 16")
  case True
  then show ?thesis by (simp add: std_sort_def set_insertion_sort)
next
  case False
  from assms have "set (lib cmp xs) = set xs" unfolding keepsElements_def by blast
  with False show ?thesis by (simp add: std_sort_def)
qed

lemma std_sort_eq_Nil:
  assumes "keepsElements lib"
  shows "std_sort lib cmp xs = [] \<longleftrightarrow> xs = []"
proof -
  have "std_sort lib cmp xs = [] \<longleftrightarrow> set (std_sort lib cmp xs) = {}" by simp
  also have "\<dots> \<longleftrightarrow> set xs = {}" by (simp only: set_std_sort [OF assms])
  finally show ?thesis by simp
qed

subsection \<open>Auxiliary facts: the sort model on a strict total order\<close>

text \<open>
  On a list of distinct elements that the comparator orders totally and transitively,
  the model returns the elements sorted by the comparator, as every correct sorting
  algorithm does; the choice of insertion sort matters only where the comparator is
  not such an ordering.
\<close>

lemma length_linear_insert: "length (linear_insert cmp v ys) = Suc (length ys)"
  by (induction ys) simp_all

lemma length_insert_step: "length (insert_step cmp pre v) = Suc (length pre)"
  by (cases pre) (simp_all add: insert_step_def length_linear_insert)

lemma length_insertion_sort: "length (insertion_sort cmp xs) = length xs"
  by (induction xs rule: rev_induct) (simp_all add: insertion_sort_Nil insertion_sort_snoc length_insert_step)

lemma linear_insert_sorted:
  assumes "sorted_wrt (\<lambda>x y. cmp y x) ys"
    and "\<forall>x\<in>set ys. \<not> cmp v x \<longrightarrow> cmp x v"
    and "\<forall>x\<in>set ys. \<forall>y\<in>set ys. cmp x y \<longrightarrow> cmp y v \<longrightarrow> cmp x v"
  shows "sorted_wrt (\<lambda>x y. cmp y x) (linear_insert cmp v ys)"
  using assms
proof (induction ys)
  case Nil
  show ?case by simp
next
  case (Cons y ys)
  show ?case
  proof (cases "cmp v y")
    case True
    with Cons show ?thesis by (auto simp: set_linear_insert)
  next
    case False
    with Cons.prems(2) have yv: "cmp y v" by simp
    have "\<forall>z\<in>set ys. cmp z v"
    proof
      fix z assume z: "z \<in> set ys"
      with Cons.prems(1) have "cmp z y" by simp
      with Cons.prems(3) yv z show "cmp z v" by simp
    qed
    with yv Cons.prems(1) False show ?thesis by simp
  qed
qed


lemma insert_step_sorted:
  assumes "sorted_wrt cmp pre"
    and "\<forall>x\<in>set pre. \<not> cmp v x \<longrightarrow> cmp x v"
    and "\<forall>x\<in>insert v (set pre). \<forall>y\<in>insert v (set pre). \<forall>z\<in>insert v (set pre).
           cmp x y \<longrightarrow> cmp y z \<longrightarrow> cmp x z"
  shows "sorted_wrt cmp (insert_step cmp pre v)"
proof (cases pre)
  case Nil
  then show ?thesis by (simp add: insert_step_def)
next
  case (Cons c cs)
  show ?thesis
  proof (cases "cmp v c")
    case True
    have "\<forall>d\<in>set pre. cmp v d"
    proof
      fix d assume d: "d \<in> set pre"
      show "cmp v d"
      proof (cases "d = c")
        case True
        with \<open>cmp v c\<close> show ?thesis by simp
      next
        case False
        with d Cons assms(1) have "cmp c d" by auto
        moreover have "v \<in> insert v (set pre)" "c \<in> insert v (set pre)" "d \<in> insert v (set pre)"
          using d Cons by simp_all
        ultimately show ?thesis using \<open>cmp v c\<close> assms(3) by blast
      qed
    qed
    with assms(1) True Cons show ?thesis by (simp add: insert_step_def)
  next
    case False
    have "sorted_wrt (\<lambda>x y. cmp y x) (rev pre)" using assms(1) by (simp add: sorted_wrt_rev)
    moreover have "\<forall>x\<in>set (rev pre). \<not> cmp v x \<longrightarrow> cmp x v" using assms(2) by simp
    moreover have "\<forall>x\<in>set (rev pre). \<forall>y\<in>set (rev pre). cmp x y \<longrightarrow> cmp y v \<longrightarrow> cmp x v"
    proof (intro ballI impI)
      fix x y assume "x \<in> set (rev pre)" "y \<in> set (rev pre)" "cmp x y" "cmp y v"
      moreover then have "x \<in> insert v (set pre)" "y \<in> insert v (set pre)" "v \<in> insert v (set pre)"
        by simp_all
      ultimately show "cmp x v" using assms(3) by blast
    qed
    ultimately have "sorted_wrt (\<lambda>x y. cmp y x) (linear_insert cmp v (rev pre))"
      by (rule linear_insert_sorted)
    then have "sorted_wrt cmp (rev (linear_insert cmp v (rev pre)))"
      by (simp add: sorted_wrt_rev)
    with False Cons show ?thesis by (simp add: insert_step_def)
  qed
qed


lemma insertion_sort_sorted:
  assumes "distinct xs"
    and "\<forall>x\<in>set xs. \<forall>y\<in>set xs. x \<noteq> y \<longrightarrow> cmp x y \<or> cmp y x"
    and "\<forall>x\<in>set xs. \<forall>y\<in>set xs. \<forall>z\<in>set xs. cmp x y \<longrightarrow> cmp y z \<longrightarrow> cmp x z"
  shows "sorted_wrt cmp (insertion_sort cmp xs)"
  using assms
proof (induction xs rule: rev_induct)
  case Nil
  show ?case by (simp add: insertion_sort_Nil)
next
  case (snoc v xs)
  have sub: "set xs \<subseteq> set (xs @ [v])" by auto
  have "distinct xs" using snoc.prems(1) by simp
  moreover have "\<forall>x\<in>set xs. \<forall>y\<in>set xs. x \<noteq> y \<longrightarrow> cmp x y \<or> cmp y x"
    using snoc.prems(2) sub by blast
  moreover have "\<forall>x\<in>set xs. \<forall>y\<in>set xs. \<forall>z\<in>set xs. cmp x y \<longrightarrow> cmp y z \<longrightarrow> cmp x z"
    using snoc.prems(3) sub by blast
  ultimately have s: "sorted_wrt cmp (insertion_sort cmp xs)" by (rule snoc.IH)
  have e: "insert v (set (insertion_sort cmp xs)) = set (xs @ [v])" by (simp add: set_insertion_sort)
  have nv: "v \<notin> set xs" using snoc.prems(1) by simp
  have c: "\<forall>x\<in>set (insertion_sort cmp xs). \<not> cmp v x \<longrightarrow> cmp x v"
  proof (intro ballI impI)
    fix x assume x: "x \<in> set (insertion_sort cmp xs)" and n: "\<not> cmp v x"
    from x have xs: "x \<in> set xs" by (simp add: set_insertion_sort)
    with nv have "x \<noteq> v" by auto
    moreover from xs have "x \<in> set (xs @ [v])" by simp
    moreover have "v \<in> set (xs @ [v])" by simp
    ultimately have "cmp x v \<or> cmp v x" using snoc.prems(2) by blast
    with n show "cmp x v" by simp
  qed
  have t: "\<forall>x\<in>insert v (set (insertion_sort cmp xs)). \<forall>y\<in>insert v (set (insertion_sort cmp xs)).
      \<forall>z\<in>insert v (set (insertion_sort cmp xs)). cmp x y \<longrightarrow> cmp y z \<longrightarrow> cmp x z"
    unfolding e using snoc.prems(3) .
  show ?case unfolding insertion_sort_snoc using s c t by (rule insert_step_sorted)
qed

lemma strictTotalOn_insertion_sort:
  assumes "strictTotalOn cmp xs"
  shows "sorted_wrt cmp (insertion_sort cmp xs) \<and> set (insertion_sort cmp xs) = set xs"
proof
  from assms have "distinct xs"
    and "\<forall>x\<in>set xs. \<forall>y\<in>set xs. x \<noteq> y \<longrightarrow> cmp x y \<or> cmp y x"
    and "\<forall>x\<in>set xs. \<forall>y\<in>set xs. \<forall>z\<in>set xs. cmp x y \<longrightarrow> cmp y z \<longrightarrow> cmp x z"
    unfolding strictTotalOn_def by blast+
  then show "sorted_wrt cmp (insertion_sort cmp xs)" by (rule insertion_sort_sorted)
  show "set (insertion_sort cmp xs) = set xs" by (rule set_insertion_sort)
qed

lemma sortsStrictOrders_insertion_sort: "sortsStrictOrders insertion_sort"
  unfolding sortsStrictOrders_def
  by (intro allI impI) (rule strictTotalOn_insertion_sort)

lemma std_sort_sorted:
  assumes "sortsStrictOrders lib" and "strictTotalOn cmp xs"
  shows "sorted_wrt cmp (std_sort lib cmp xs) \<and> set (std_sort lib cmp xs) = set xs"
proof (cases "length xs \<le> 16")
  case True
  then have "std_sort lib cmp xs = insertion_sort cmp xs" by (rule std_sort_small)
  with strictTotalOn_insertion_sort [OF assms(2)] show ?thesis by simp
next
  case False
  then have e: "std_sort lib cmp xs = lib cmp xs" by (simp add: std_sort_def)
  from assms have "sorted_wrt cmp (lib cmp xs) \<and> set (lib cmp xs) = set xs"
    unfolding sortsStrictOrders_def by blast
  with e show ?thesis by simp
qed

text \<open>The head of a sorted arrangement is the element that precedes all others.\<close>

lemma sorted_head_least:
  assumes "sorted_wrt cmp ss" and "set ss = set (c # cs)"
    and "\<forall>d\<in>set cs. cmp c d \<and> \<not> cmp d c"
  shows "\<exists>ts. ss = c # ts"
proof (cases ss)
  case Nil
  with assms(2) show ?thesis by simp
next
  case (Cons h ts)
  show ?thesis
  proof (cases "h = c")
    case True
    with Cons show ?thesis by simp
  next
    case False
    from Cons assms(2) have "h \<in> set (c # cs)" by auto
    with False have hc: "h \<in> set cs" by simp
    from Cons assms(2) have "c \<in> set (h # ts)" by auto
    with False have "c \<in> set ts" by auto
    with assms(1) Cons have "cmp h c" by simp
    with hc assms(3) show ?thesis by blast
  qed
qed

subsection \<open>Auxiliary facts: trimming and lowercasing keep the slash\<close>

lemma in_set_dropWhile: "x \<in> set xs \<Longrightarrow> \<not> P x \<Longrightarrow> x \<in> set (dropWhile P xs)"
  by (induction xs) auto

lemma in_set_trim:
  assumes "c \<notin> set charsToTrim"
  shows "c \<in> set (trim s) \<longleftrightarrow> c \<in> set s"
proof
  assume "c \<in> set (trim s)"
  then have "c \<in> set (rev (dropWhile (\<lambda>c. c \<in> set charsToTrim) (rev s)))"
    unfolding trim_def ltrim_def rtrim_def by (rule set_dropWhileD)
  then have "c \<in> set (dropWhile (\<lambda>c. c \<in> set charsToTrim) (rev s))" by simp
  then have "c \<in> set (rev s)" by (rule set_dropWhileD)
  then show "c \<in> set s" by simp
next
  assume "c \<in> set s"
  then have "c \<in> set (rev s)" by simp
  then have "c \<in> set (dropWhile (\<lambda>c. c \<in> set charsToTrim) (rev s))"
    using assms by (rule in_set_dropWhile)
  then have "c \<in> set (rev (dropWhile (\<lambda>c. c \<in> set charsToTrim) (rev s)))" by simp
  then show "c \<in> set (trim s)"
    unfolding trim_def ltrim_def rtrim_def using assms by (rule in_set_dropWhile)
qed

lemma tolower_slash: "tolower c = CHR ''/'' \<longleftrightarrow> c = CHR ''/''"
proof (cases "(65::nat) \<le> of_char c \<and> of_char c \<le> (90::nat)")
  case True
  then have "of_char (tolower c) = (of_char c + 32 :: nat)"
    by (simp add: tolower_def of_char_of)
  with True have "of_char (tolower c) \<noteq> (47::nat)" by simp
  moreover have "of_char c \<noteq> (47::nat)" using True by simp
  ultimately show ?thesis by auto
next
  case False
  then show ?thesis by (auto simp: tolower_def)
qed

lemma slash_in_lower: "CHR ''/'' \<in> set (stringToLower s) \<longleftrightarrow> CHR ''/'' \<in> set s"
  by (induction s) (simp_all add: stringToLower_def tolower_slash eq_commute [of "CHR ''/''"])

lemma slash_in_normalized:
  "CHR ''/'' \<in> set (stringToLower (trim s)) \<longleftrightarrow> CHR ''/'' \<in> set s"
proof -
  have "CHR ''/'' \<in> set (trim s) \<longleftrightarrow> CHR ''/'' \<in> set s"
    by (rule in_set_trim) (simp add: charsToTrim_def)
  then show ?thesis by (simp add: slash_in_lower)
qed

subsection \<open>What parse returns\<close>

lemma selectLoop_Nil_iff:
  "selectLoop accepted n av = [] \<longleftrightarrow> (\<forall>s\<in>set av. CHR ''/'' \<notin> set s)"
proof -
  have "selectLoop accepted n av = [] \<longleftrightarrow> map range_str (selectLoop accepted n av) = []"
    by simp
  also have "\<dots> \<longleftrightarrow> (\<forall>s\<in>set av. CHR ''/'' \<notin> set s)"
    unfolding selectLoop_ranges by (simp add: filter_empty_conv slash_in_normalized)
  finally show ?thesis .
qed

lemma selectLoop_range:
  assumes "c \<in> set (selectLoop accepted n av)"
  shows "\<exists>s\<in>set av. CHR ''/'' \<in> set s \<and> range_str c = stringToLower (trim s)"
proof -
  from assms have "range_str c \<in> set (map range_str (selectLoop accepted n av))" by simp
  then show ?thesis
    unfolding selectLoop_ranges by (auto simp: slash_in_normalized)
qed

lemma getPreferable_no_candidate:
  assumes "selectLoop accepted 0 av = []"
  shows "getPreferableContentType lib accepted av = (case av of a # _ \<Rightarrow> a | [] \<Rightarrow> [])"
  using assms
  by (simp add: getPreferableContentType_def selectedContentTypes_def std_sort_Nil)

lemma getPreferable_cases:
  assumes "keepsElements lib"
  shows "(selectLoop accepted 0 av = [] \<and>
      getPreferableContentType lib accepted av = (case av of a # _ \<Rightarrow> a | [] \<Rightarrow> [])) \<or>
   (\<exists>c\<in>set (selectLoop accepted 0 av). getPreferableContentType lib accepted av = range_str c)"
proof (cases "selectedContentTypes lib accepted av")
  case Nil
  then have "selectLoop accepted 0 av = []"
    by (simp add: selectedContentTypes_def std_sort_eq_Nil [OF assms])
  with Nil show ?thesis by (simp add: getPreferableContentType_def)
next
  case (Cons c cs)
  then have "c \<in> set (selectedContentTypes lib accepted av)" by simp
  then have "c \<in> set (selectLoop accepted 0 av)"
    by (simp add: selectedContentTypes_def set_std_sort [OF assms])
  with Cons show ?thesis by (auto simp: getPreferableContentType_def)
qed

lemma parse_fallback:
  assumes "acceptValue = [] \<or> (\<forall>s\<in>set av. CHR ''/'' \<notin> set s)"
  shows "parse stof lib acceptValue av = (case av of a # _ \<Rightarrow> a | [] \<Rightarrow> [])"
proof (cases "acceptValue = []")
  case True
  then show ?thesis by (simp add: parse_def)
next
  case False
  with assms have "\<forall>s\<in>set av. CHR ''/'' \<notin> set s" by simp
  then have "selectLoop (std_sort lib compareContentTypes (acceptedContentTypes stof acceptValue)) 0 av = []"
    by (simp add: selectLoop_Nil_iff)
  then show ?thesis using False by (simp add: parse_def getPreferable_no_candidate)
qed

lemma parse_cases:
  assumes "keepsElements lib"
  shows "((acceptValue = [] \<or> (\<forall>s\<in>set av. CHR ''/'' \<notin> set s)) \<and>
      parse stof lib acceptValue av = (case av of a # _ \<Rightarrow> a | [] \<Rightarrow> [])) \<or>
   (acceptValue \<noteq> [] \<and>
      (\<exists>s\<in>set av. CHR ''/'' \<in> set s \<and> parse stof lib acceptValue av = stringToLower (trim s)))"
proof (cases "acceptValue = []")
  case True
  then show ?thesis by (simp add: parse_def)
next
  case False
  let ?acc = "std_sort lib compareContentTypes (acceptedContentTypes stof acceptValue)"
  from False have p: "parse stof lib acceptValue av = getPreferableContentType lib ?acc av"
    by (simp add: parse_def)
  from getPreferable_cases [OF assms, of ?acc av] show ?thesis
  proof
    assume "selectLoop ?acc 0 av = [] \<and>
      getPreferableContentType lib ?acc av = (case av of a # _ \<Rightarrow> a | [] \<Rightarrow> [])"
    then show ?thesis using p by (simp add: selectLoop_Nil_iff)
  next
    assume "\<exists>c\<in>set (selectLoop ?acc 0 av). getPreferableContentType lib ?acc av = range_str c"
    then obtain c where c: "c \<in> set (selectLoop ?acc 0 av)"
      and r: "getPreferableContentType lib ?acc av = range_str c" by blast
    from selectLoop_range [OF c] obtain s where "s \<in> set av" "CHR ''/'' \<in> set s"
      "range_str c = stringToLower (trim s)" by blast
    with r p False show ?thesis by auto
  qed
qed

text \<open>
  C7 (as amended). parse is a total function into strings. Its result is empty only if
  the available list is empty or its first entry is the empty string, and then the
  header is empty or no available entry contains a slash (the first entry is returned
  as supplied, so an empty first entry comes back empty). Above 16 entries the library
  sort is assumed to return a rearrangement of its input.
\<close>

theorem parse_empty_result:
  assumes "keepsElements lib" and "parse stof lib acceptValue av = []"
  shows "(av = [] \<or> (\<exists>rest. av = [] # rest)) \<and>
         (acceptValue = [] \<or> (\<forall>s\<in>set av. CHR ''/'' \<notin> set s))"
proof -
  from parse_cases [OF assms(1), of acceptValue av stof] show ?thesis
  proof
    assume a: "(acceptValue = [] \<or> (\<forall>s\<in>set av. CHR ''/'' \<notin> set s)) \<and>
      parse stof lib acceptValue av = (case av of a # _ \<Rightarrow> a | [] \<Rightarrow> [])"
    with assms(2) show ?thesis by (cases av) auto
  next
    assume "acceptValue \<noteq> [] \<and>
      (\<exists>s\<in>set av. CHR ''/'' \<in> set s \<and> parse stof lib acceptValue av = stringToLower (trim s))"
    then obtain s where sl: "CHR ''/'' \<in> set s"
      and ps: "parse stof lib acceptValue av = stringToLower (trim s)"
      by blast
    from sl have "CHR ''/'' \<in> set (stringToLower (trim s))"
      by (simp only: slash_in_normalized)
    moreover from ps assms(2) have "stringToLower (trim s) = []" by simp
    ultimately show ?thesis by simp
  qed
qed

theorem parse_empty_result_witness:
  "parse stof_sample insertion_sort ''text/html'' ['''', ''bogus''] = [] \<and>
   (['''', ''bogus''] = [] \<or> (\<exists>rest. ['''', ''bogus''] = [] # rest)) \<and>
   (''text/html'' = [] \<or> CHR ''/'' \<notin> set '''' \<and> CHR ''/'' \<notin> set ''bogus'')"
proof -
  have h: "parse stof_sample insertion_sort ''text/html'' ['''', ''bogus''] = []" by code_simp
  from parse_empty_result [OF keepsElements_insertion_sort h] h show ?thesis by simp
qed

text \<open>
  The claim as stated fails: with a non-empty available list whose first entry is the
  empty string, the result is empty, for the empty header and for a header that matches
  nothing when no entry has a slash.
\<close>

theorem parse_empty_result_counterexample:
  "parse stof_sample insertion_sort [] [[]] = [] \<and> [[]] \<noteq> ([] :: string list) \<and>
   parse stof_sample insertion_sort ''text/html'' ['''', ''bogus''] = [] \<and> ['''', ''bogus''] \<noteq> []"
  by code_simp

subsection \<open>Auxiliary facts: candidates when nothing is accepted\<close>

lemma selectLoop_no_accepted:
  "\<forall>c\<in>set (selectLoop [] n av). qvalue c = Fin 0"
  by (induction av arbitrary: n) (auto simp: Let_def matchLoop_def split: option.splits)

lemma selectLoop_orders:
  "sorted_wrt (\<lambda>a b. order a < order b) (selectLoop accepted n av) \<and>
   (\<forall>c\<in>set (selectLoop accepted n av). n \<le> order c)"
proof (induction av arbitrary: n)
  case Nil
  show ?case by simp
next
  case (Cons s ss)
  show ?case
  proof (cases "find_char CHR ''/'' (stringToLower (trim s))")
    case None
    then show ?thesis using Cons.IH [of n] by simp
  next
    case (Some i)
    from Cons.IH [of "n + 1"] have
      s: "sorted_wrt (\<lambda>a b. order a < order b) (selectLoop accepted (n + 1) ss)"
      and b: "\<forall>c\<in>set (selectLoop accepted (n + 1) ss). n + 1 \<le> order c" by simp_all
    from b have "\<forall>c\<in>set (selectLoop accepted (n + 1) ss). n < order c \<and> n \<le> order c" by auto
    with Some s show ?thesis by (simp add: Let_def)
  qed
qed

lemma selectLoop_first:
  assumes "find (\<lambda>s. CHR ''/'' \<in> set s) av = Some s0"
  shows "\<exists>c rest. selectLoop accepted n av = c # rest \<and> range_str c = stringToLower (trim s0)"
  using assms
proof (induction av arbitrary: n)
  case Nil
  then show ?case by simp
next
  case (Cons s ss)
  show ?case
  proof (cases "CHR ''/'' \<in> set s")
    case True
    with Cons.prems have e: "s0 = s" by simp
    from True have "CHR ''/'' \<in> set (stringToLower (trim s))"
      by (simp only: slash_in_normalized)
    then obtain i where "find_char CHR ''/'' (stringToLower (trim s)) = Some i"
      by (simp add: find_char_def)
    then show ?thesis using e by (simp add: Let_def)
  next
    case False
    then have "CHR ''/'' \<notin> set (stringToLower (trim s))"
      by (simp only: slash_in_normalized) simp
    then have "find_char CHR ''/'' (stringToLower (trim s)) = None"
      by (simp add: find_char_def)
    moreover from False Cons.prems have "find (\<lambda>s. CHR ''/'' \<in> set s) ss = Some s0" by simp
    ultimately show ?thesis using Cons.IH [of n] by simp
  qed
qed

lemma compare_plain:
  assumes "qvalue a = Fin 0" and "qvalue b = Fin 0"
    and "type a \<noteq> ''*''" and "subtype a \<noteq> ''*''"
    and "type b \<noteq> ''*''" and "subtype b \<noteq> ''*''"
  shows "compareContentTypes a b \<longleftrightarrow> order a < order b"
  using assms by (simp add: compareContentTypes_def f_neq_def)

text \<open>
  With every candidate at quality 0 and none with a wildcard, the comparator is the
  order of appearance, a strict total order on the candidates, and the sorted
  arrangement starts with the first candidate.
\<close>

lemma plain_candidates_sorted_head:
  assumes lib: "sortsStrictOrders lib"
    and cs: "selectLoop [] 0 av = c # rest"
    and plain: "\<forall>d\<in>set (selectLoop [] 0 av). type d \<noteq> ''*'' \<and> subtype d \<noteq> ''*''"
  shows "\<exists>ts. std_sort lib compareContentTypes (selectLoop [] 0 av) = c # ts"
proof -
  let ?cs = "selectLoop [] 0 av"
  have q: "\<forall>d\<in>set ?cs. qvalue d = Fin 0" by (rule selectLoop_no_accepted)
  have so: "sorted_wrt (\<lambda>a b. order a < order b) ?cs" using selectLoop_orders by blast
  have cmp: "\<And>x y. x \<in> set ?cs \<Longrightarrow> y \<in> set ?cs \<Longrightarrow>
      compareContentTypes x y \<longleftrightarrow> order x < order y"
    using q plain by (intro compare_plain) auto
  have "sorted_wrt (<) (map order ?cs)" using so by (simp add: sorted_wrt_map)
  then have dm: "distinct (map order ?cs)" by (simp add: strict_sorted_iff)
  then have d: "distinct ?cs" by (rule distinct_map [THEN iffD1, THEN conjunct1])
  from dm have inj: "inj_on order (set ?cs)" by (simp add: distinct_map)
  have st: "strictTotalOn compareContentTypes ?cs"
    unfolding strictTotalOn_def
  proof (intro conjI ballI impI)
    show "distinct ?cs" by (rule d)
  next
    fix x assume "x \<in> set ?cs"
    then show "\<not> compareContentTypes x x" using cmp by simp
  next
    fix x y assume x: "x \<in> set ?cs" and y: "y \<in> set ?cs" and n: "x \<noteq> y"
    from inj x y n have "order x \<noteq> order y" by (auto dest: inj_onD)
    then have "order x < order y \<or> order y < order x" by auto
    with x y show "compareContentTypes x y \<or> compareContentTypes y x" using cmp by simp
  next
    fix x y z assume "x \<in> set ?cs" "y \<in> set ?cs" "z \<in> set ?cs"
      and "compareContentTypes x y" "compareContentTypes y z"
    then show "compareContentTypes x z" using cmp by auto
  qed
  from std_sort_sorted [OF lib st] have
    s1: "sorted_wrt compareContentTypes (std_sort lib compareContentTypes ?cs)"
    and s2: "set (std_sort lib compareContentTypes ?cs) = set (c # rest)"
    using cs by simp_all
  have "\<forall>d\<in>set rest. compareContentTypes c d \<and> \<not> compareContentTypes d c"
  proof
    fix d assume dr: "d \<in> set rest"
    with so cs have "order c < order d" by simp
    moreover from dr cs have "c \<in> set ?cs" "d \<in> set ?cs" by simp_all
    ultimately show "compareContentTypes c d \<and> \<not> compareContentTypes d c"
      using cmp by auto
  qed
  with s1 s2 show ?thesis by (rule sorted_head_least)
qed

text \<open>
  C2 (as amended). When the accepted sequence is empty: if the header string is empty,
  or no available entry contains a slash, the result is the first available entry as
  supplied (the empty string for the empty list). With a non-empty header and an
  available entry that contains a slash, the result is instead the trimmed, lowercased
  form of an available entry with a slash; it is that of the first such entry when no
  candidate has the type or the subtype \<open>*\<close>. Above 16 candidates the library sort is
  assumed to return a rearrangement of its input for the former, and to meet the
  contract of \<^verbatim>\<open>std::sort\<close> on a strict total order for the latter.
\<close>

theorem empty_accepted_result:
  assumes "acceptedContentTypes stof acceptValue = []"
  shows "(acceptValue = [] \<or> (\<forall>s\<in>set av. CHR ''/'' \<notin> set s) \<longrightarrow>
            parse stof lib acceptValue av = (case av of a # _ \<Rightarrow> a | [] \<Rightarrow> [])) \<and>
         (keepsElements lib \<and> acceptValue \<noteq> [] \<and> (\<exists>s\<in>set av. CHR ''/'' \<in> set s) \<longrightarrow>
            (\<exists>s\<in>set av. CHR ''/'' \<in> set s \<and>
               parse stof lib acceptValue av = stringToLower (trim s))) \<and>
         (sortsStrictOrders lib \<and> acceptValue \<noteq> [] \<and>
          find (\<lambda>s. CHR ''/'' \<in> set s) av = Some s0 \<and>
          (\<forall>d\<in>set (selectLoop [] 0 av). type d \<noteq> ''*'' \<and> subtype d \<noteq> ''*'') \<longrightarrow>
            parse stof lib acceptValue av = stringToLower (trim s0))"
proof (intro conjI impI)
  assume "acceptValue = [] \<or> (\<forall>s\<in>set av. CHR ''/'' \<notin> set s)"
  then show "parse stof lib acceptValue av = (case av of a # _ \<Rightarrow> a | [] \<Rightarrow> [])"
    by (rule parse_fallback)
next
  assume a: "keepsElements lib \<and> acceptValue \<noteq> [] \<and> (\<exists>s\<in>set av. CHR ''/'' \<in> set s)"
  then have "keepsElements lib" by simp
  from parse_cases [OF this, of acceptValue av stof] a
  show "\<exists>s\<in>set av. CHR ''/'' \<in> set s \<and> parse stof lib acceptValue av = stringToLower (trim s)"
    by blast
next
  assume a: "sortsStrictOrders lib \<and> acceptValue \<noteq> [] \<and>
          find (\<lambda>s. CHR ''/'' \<in> set s) av = Some s0 \<and>
          (\<forall>d\<in>set (selectLoop [] 0 av). type d \<noteq> ''*'' \<and> subtype d \<noteq> ''*'')"
  then have lib: "sortsStrictOrders lib" and ne: "acceptValue \<noteq> []"
    and f: "find (\<lambda>s. CHR ''/'' \<in> set s) av = Some s0"
    and plain: "\<forall>d\<in>set (selectLoop [] 0 av). type d \<noteq> ''*'' \<and> subtype d \<noteq> ''*''"
    by simp_all
  from selectLoop_first [OF f, of "[]" 0] obtain c rest where
    cs: "selectLoop [] 0 av = c # rest" and r: "range_str c = stringToLower (trim s0)" by blast
  from plain_candidates_sorted_head [OF lib cs plain] obtain ts where
    "std_sort lib compareContentTypes (selectLoop [] 0 av) = c # ts" by blast
  with ne assms r show "parse stof lib acceptValue av = stringToLower (trim s0)"
    by (simp add: parse_def getPreferableContentType_def selectedContentTypes_def std_sort_Nil)
qed

theorem empty_accepted_result_witness:
  "parse stof_sample insertion_sort [] [''Text/HTML''] = ''Text/HTML'' \<and>
   parse stof_sample insertion_sort ''bogus'' [''nothing'', ''here''] = ''nothing'' \<and>
   (\<exists>s\<in>set [''bogus'', ''Text/HTML'', ''a/*''].
      CHR ''/'' \<in> set s \<and>
      parse stof_sample insertion_sort ''bogus'' [''bogus'', ''Text/HTML'', ''a/*''] = stringToLower (trim s)) \<and>
   parse stof_sample insertion_sort ''bogus'' [''bogus'', '' Text/HTML '', ''image/png'']
     = stringToLower (trim '' Text/HTML '')"
proof -
  have h1: "acceptedContentTypes stof_sample [] = []" by code_simp
  have h2: "acceptedContentTypes stof_sample ''bogus'' = []" by code_simp
  have h3: "\<forall>s\<in>set [''nothing'', ''here'']. CHR ''/'' \<notin> set s" by code_simp
  have h4: "''bogus'' \<noteq> [] \<and> (\<exists>s\<in>set [''bogus'', ''Text/HTML'', ''a/*'']. CHR ''/'' \<in> set s)"
    by code_simp
  have h5: "find (\<lambda>s. CHR ''/'' \<in> set s) [''bogus'', '' Text/HTML '', ''image/png''] = Some '' Text/HTML ''"
    by code_simp
  have h6: "\<forall>d\<in>set (selectLoop [] 0 [''bogus'', '' Text/HTML '', ''image/png'']).
      type d \<noteq> ''*'' \<and> subtype d \<noteq> ''*''"
    by code_simp
  from empty_accepted_result [OF h1, of "[''Text/HTML'']" insertion_sort]
  have a: "parse stof_sample insertion_sort [] [''Text/HTML''] = ''Text/HTML''" by simp
  from empty_accepted_result [OF h2, of "[''nothing'', ''here'']" insertion_sort] h3
  have b: "parse stof_sample insertion_sort ''bogus'' [''nothing'', ''here''] = ''nothing''" by simp
  from empty_accepted_result [OF h2, of "[''bogus'', ''Text/HTML'', ''a/*'']" insertion_sort]
    keepsElements_insertion_sort h4
  have c: "\<exists>s\<in>set [''bogus'', ''Text/HTML'', ''a/*''].
      CHR ''/'' \<in> set s \<and>
      parse stof_sample insertion_sort ''bogus'' [''bogus'', ''Text/HTML'', ''a/*''] = stringToLower (trim s)"
    by blast
  from empty_accepted_result [OF h2, of "[''bogus'', '' Text/HTML '', ''image/png'']" insertion_sort "'' Text/HTML ''"]
    sortsStrictOrders_insertion_sort h4 h5 h6
  have d: "parse stof_sample insertion_sort ''bogus'' [''bogus'', '' Text/HTML '', ''image/png'']
     = stringToLower (trim '' Text/HTML '')"
    by blast
  from a b c d show ?thesis by blast
qed

text \<open>
  The claim as stated fails: the header \<^verbatim>\<open>bogus\<close> yields no accepted range, yet the
  result is the normalized second entry, not the first available entry.
\<close>

theorem empty_accepted_counterexample:
  "acceptedContentTypes stof_sample ''bogus'' = [] \<and>
   parse stof_sample insertion_sort ''bogus'' [''bogus'', ''Text/HTML''] = ''text/html'' \<and>
   ''text/html'' \<noteq> hd [''bogus'', ''Text/HTML'']"
  by code_simp

subsection \<open>Auxiliary facts: what a parsed token looks like\<close>

lemma split_at_find_char:
  assumes "find_char c s = Some i"
  shows "s = take i s @ c # drop (i + 1) s \<and> c \<notin> set (take i s)"
proof -
  let ?P = "\<lambda>x. x \<noteq> c"
  from assms have m: "c \<in> set s"
    by (simp add: find_char_def split: if_splits)
  with assms have "length (takeWhile ?P s) = i"
    by (simp add: find_char_def)
  then have i: "i = length (takeWhile ?P s)" by (rule sym)
  have t: "take i s = takeWhile ?P s" unfolding i by (rule takeWhile_eq_take [symmetric])
  have d: "drop i s = dropWhile ?P s" unfolding i by (rule dropWhile_eq_drop [symmetric])
  from m have ne: "dropWhile ?P s \<noteq> []" by (auto simp: dropWhile_eq_Nil_conv)
  then have "hd (dropWhile ?P s) = c" using hd_dropWhile [of ?P s] by simp
  with ne have "dropWhile ?P s = c # tl (dropWhile ?P s)" by (cases "dropWhile ?P s") simp_all
  moreover have "tl (dropWhile ?P s) = drop (i + 1) s"
  proof -
    have "tl (drop i s) = drop (Suc i) s" by (simp add: drop_Suc tl_drop)
    then show ?thesis unfolding d by simp
  qed
  ultimately have "drop i s = c # drop (i + 1) s" using d by simp
  then have "s = take i s @ c # drop (i + 1) s"
    using append_take_drop_id [of i s] by simp
  moreover have "c \<notin> set (take i s)"
    unfolding t by (auto dest: set_takeWhileD)
  ultimately show ?thesis by blast
qed

lemma parseParam_first_shape:
  assumes "parseParam stof (ct, True) p = Some st'"
  shows "splitsAtSlash (fst st')"
proof -
  let ?rng = "stringToLower (trim p)"
  from assms obtain i where f: "find_char CHR ''/'' ?rng = Some i"
    and s: "st' = (ct\<lparr>range_str := ?rng, type := take i ?rng, subtype := drop (i + 1) ?rng\<rparr>, False)"
    and w: "\<not> (take i ?rng = ''*'' \<and> drop (i + 1) ?rng \<noteq> ''*'')"
    by (auto simp: parseParam_def Let_def split: option.splits if_splits)
  from split_at_find_char [OF f] s w show ?thesis
    by (auto simp: splitsAtSlash_def)
qed

lemma parseParam_rest_shape:
  assumes "parseParam stof (ct, False) p = Some st'"
  shows "\<exists>q. st' = (ct\<lparr>qvalue := q\<rparr>, False) \<and> (q = qvalue ct \<or> (\<exists>raw. q = normalizeQ raw))"
proof (cases "isQualityParam p")
  case False
  with assms have "st' = (ct, False)" by (rule parseParam_other)
  then have "st' = (ct\<lparr>qvalue := qvalue ct\<rparr>, False)" by simp
  then show ?thesis by blast
next
  case True
  then obtain v where "paramValue p = Some v"
    by (auto simp: isQualityParam_def paramKey_def paramValue_def Let_def split: option.splits)
  from parseParam_quality [OF assms True this] show ?thesis by blast
qed

lemma paramLoop_rest_shape:
  assumes "paramLoop stof (ct, False) ps = Some st'"
  shows "range_str (fst st') = range_str ct \<and> type (fst st') = type ct \<and>
         subtype (fst st') = subtype ct \<and> order (fst st') = order ct \<and>
         (qvalue (fst st') = qvalue ct \<or> (\<exists>raw. qvalue (fst st') = normalizeQ raw))"
  using assms
proof (induction ps arbitrary: ct)
  case Nil
  then show ?case by auto
next
  case (Cons p ps)
  from Cons.prems obtain st1 where s1: "parseParam stof (ct, False) p = Some st1"
    and l: "paramLoop stof st1 ps = Some st'"
    by (auto split: option.splits)
  from parseParam_rest_shape [OF s1] obtain q where e: "st1 = (ct\<lparr>qvalue := q\<rparr>, False)"
    and q: "q = qvalue ct \<or> (\<exists>raw. q = normalizeQ raw)" by blast
  from Cons.IH [of "ct\<lparr>qvalue := q\<rparr>"] l e q show ?case by auto
qed

lemma normalizeQ_range: "normalizeQ raw = NaN \<or> inSpecRange (normalizeQ raw)"
proof (cases raw)
  case (Fin r)
  then show ?thesis
    using lit_above_thousandth
    by (auto simp: normalizeQ_def inSpecRange_def f_neq_def f_greater_def)
qed (simp_all add: normalizeQ_def inSpecRange_def f_neq_def f_greater_def)

lemma getlines_eq_Nil: "getlines d cur s = [] \<longleftrightarrow> cur = [] \<and> s = []"
  by (induction s arbitrary: cur) simp_all

lemma parseToken_shape:
  assumes "parseToken stof n t = Some e"
  shows "order e = n \<and> (qvalue e = NaN \<or> inSpecRange (qvalue e)) \<and>
         ((trim t = [] \<and> range_str e = []) \<or>
          (trim t \<noteq> [] \<and> splitsAtSlash e \<and>
           (\<exists>p ps. getlines CHR '';'' [] (trim t) = p # ps \<and> range_str e = stringToLower (trim p))))"
proof (cases "getlines CHR '';'' [] (trim t)")
  case Nil
  with assms have "e = \<lparr>range_str = trim t, type = [], subtype = [], qvalue = Fin 1, order = n\<rparr>"
    by (auto simp: parseToken_def Let_def)
  moreover from Nil have "trim t = []" by (simp add: getlines_eq_Nil)
  ultimately show ?thesis by (simp add: inSpecRange_def)
next
  case (Cons p ps)
  define ct0 where "ct0 = \<lparr>range_str = trim t, type = [], subtype = [], qvalue = Fin 1, order = n\<rparr>"
  from assms Cons obtain st1 st2 where s1: "parseParam stof (ct0, True) p = Some st1"
    and l: "paramLoop stof st1 ps = Some st2" and c: "e = fst st2"
    by (auto simp: parseToken_def Let_def ct0_def split: option.splits)
  from parseParam_first [OF s1] have q1: "qvalue (fst st1) = Fin 1" and f1: "snd st1 = False"
    and o1: "order (fst st1) = n"
    by (simp_all add: ct0_def)
  from f1 have e1: "st1 = (fst st1, False)" by (cases st1) simp
  from parseParam_first_shape [OF s1] have w1: "splitsAtSlash (fst st1)" .
  from l e1 have "paramLoop stof (fst st1, False) ps = Some st2" by simp
  from paramLoop_rest_shape [OF this] c
  have k: "range_str e = range_str (fst st1)" "type e = type (fst st1)"
    "subtype e = subtype (fst st1)" "order e = order (fst st1)"
    "qvalue e = qvalue (fst st1) \<or> (\<exists>raw. qvalue e = normalizeQ raw)"
    by simp_all
  from k(1-3) w1 have "splitsAtSlash e" by (simp add: splitsAtSlash_def)
  moreover have "inSpecRange (Fin 1)" by (simp add: inSpecRange_def)
  with k(5) q1 have "qvalue e = NaN \<or> inSpecRange (qvalue e)"
    using normalizeQ_range by metis
  moreover from Cons have "trim t \<noteq> []" by auto
  moreover from s1 have "range_str (fst st1) = stringToLower (trim p)"
    by (auto simp: parseParam_def Let_def split: option.splits if_splits)
  ultimately show ?thesis using k(1,4) o1 Cons by simp
qed

lemma parseTokens_member:
  assumes "e \<in> set (parseTokens stof n ts)"
  shows "\<exists>k t. t \<in> set ts \<and> parseToken stof k t = Some e"
  using assms
proof (induction ts arbitrary: n)
  case Nil
  then show ?case by simp
next
  case (Cons a ts)
  show ?case
  proof (cases "e \<in> set (parseTokens stof (n + 1) ts)")
    case True
    from Cons.IH [OF True] show ?thesis by auto
  next
    case False
    with Cons.prems have "parseToken stof n a = Some e"
      by (auto split: option.splits)
    then show ?thesis by auto
  qed
qed

subsection \<open>Invariants of the parsed entries\<close>




lemma accepted_shape:
  assumes "e \<in> set (acceptedContentTypes stof h)"
  shows "(qvalue e = NaN \<or> inSpecRange (qvalue e)) \<and> (range_str e = [] \<or> splitsAtSlash e)"
proof -
  from assms obtain k t where "parseToken stof k t = Some e"
    unfolding acceptedContentTypes_def using parseTokens_member by blast
  from parseToken_shape [OF this] show ?thesis by blast
qed




lemma matchLoop_quality:
  "fst (foldl (matchStep sel) st accepted) = fst st \<or>
   (\<exists>a\<in>set accepted. fst (foldl (matchStep sel) st accepted) = qvalue a)"
proof (induction accepted arbitrary: st)
  case Nil
  show ?case by simp
next
  case (Cons a as)
  have "fst (matchStep sel st a) = fst st \<or> fst (matchStep sel st a) = qvalue a"
    by (simp add: matchStep_def Let_def)
  with Cons.IH [of "matchStep sel st a"] show ?case by auto
qed

lemma selectLoop_quality_source:
  "\<forall>c\<in>set (selectLoop accepted n av). qvalue c = Fin 0 \<or> (\<exists>a\<in>set accepted. qvalue c = qvalue a)"
proof (induction av arbitrary: n)
  case Nil
  show ?case by simp
next
  case (Cons s ss)
  show ?case
  proof (cases "find_char CHR ''/'' (stringToLower (trim s))")
    case None
    then show ?thesis using Cons.IH by simp
  next
    case (Some i)
    define sel where "sel = \<lparr>range_str = stringToLower (trim s),
      type = take i (stringToLower (trim s)),
      subtype = drop (i + 1) (stringToLower (trim s)), qvalue = Fin 0, order = n\<rparr>"
    define c where "c = sel\<lparr>qvalue := fst (matchLoop sel (Fin 0, False) accepted)\<rparr>"
    have sl: "selectLoop accepted n (s # ss) = c # selectLoop accepted (n + 1) ss"
      using Some by (simp add: Let_def c_def sel_def)
    have "qvalue c = Fin 0 \<or> (\<exists>a\<in>set accepted. qvalue c = qvalue a)"
      using matchLoop_quality [of sel "(Fin 0, False)" accepted]
      by (simp add: c_def matchLoop_def)
    then show ?thesis using Cons.IH unfolding sl by simp
  qed
qed

text \<open>
  C9 (as amended). Every accepted range whose quality is a number (not NaN) has its
  quality in \<open>{-1} \<union> [0.001, 1]\<close>. Every candidate's quality after match assignment
  is the initial \<open>0\<close> or the quality of one of the accepted ranges; so in a negotiation
  a candidate's quality that is a number is \<open>0\<close> or lies in \<open>{-1} \<union> [0.001, 1]\<close>
  (above 16 entries the library sort is assumed to return a rearrangement of its input).
\<close>

theorem qvalue_ranges:
  "(\<forall>a\<in>set (acceptedContentTypes stof h). qvalue a \<noteq> NaN \<longrightarrow> inSpecRange (qvalue a)) \<and>
   (\<forall>c\<in>set (selectLoop accepted n av).
      qvalue c = Fin 0 \<or> (\<exists>a\<in>set accepted. qvalue c = qvalue a)) \<and>
   (keepsElements lib \<longrightarrow>
    (\<forall>c\<in>set (selectedContentTypes lib
                 (std_sort lib compareContentTypes (acceptedContentTypes stof h)) av).
       qvalue c \<noteq> NaN \<longrightarrow> qvalue c = Fin 0 \<or> inSpecRange (qvalue c)))"
proof (intro conjI ballI impI)
  fix a assume "a \<in> set (acceptedContentTypes stof h)" "qvalue a \<noteq> NaN"
  then show "inSpecRange (qvalue a)" using accepted_shape by blast
next
  fix c assume "c \<in> set (selectLoop accepted n av)"
  then show "qvalue c = Fin 0 \<or> (\<exists>a\<in>set accepted. qvalue c = qvalue a)"
    using selectLoop_quality_source by blast
next
  fix c
  assume k: "keepsElements lib"
    and c: "c \<in> set (selectedContentTypes lib
                 (std_sort lib compareContentTypes (acceptedContentTypes stof h)) av)"
    and n: "qvalue c \<noteq> NaN"
  from c have "c \<in> set (selectLoop (std_sort lib compareContentTypes (acceptedContentTypes stof h)) 0 av)"
    by (simp add: selectedContentTypes_def set_std_sort [OF k])
  then have "qvalue c = Fin 0 \<or>
      (\<exists>a\<in>set (std_sort lib compareContentTypes (acceptedContentTypes stof h)). qvalue c = qvalue a)"
    using selectLoop_quality_source by blast
  then have "qvalue c = Fin 0 \<or> (\<exists>a\<in>set (acceptedContentTypes stof h). qvalue c = qvalue a)"
    by (simp add: set_std_sort [OF k])
  with n show "qvalue c = Fin 0 \<or> inSpecRange (qvalue c)"
    using accepted_shape by metis
qed

theorem qvalue_ranges_witness:
  "inSpecRange (qvalue \<lparr>range_str = ''text/html'', type = ''text'', subtype = ''html'', qvalue = Fin (1 / 2), order = 0\<rparr>) \<and>
   (qvalue \<lparr>range_str = ''text/html'', type = ''text'', subtype = ''html'', qvalue = Fin (- 1), order = 0\<rparr> = Fin 0 \<or>
    (\<exists>a\<in>set [\<lparr>range_str = ''text/*'', type = ''text'', subtype = ''*'', qvalue = Fin (- 1), order = 0\<rparr>].
       qvalue \<lparr>range_str = ''text/html'', type = ''text'', subtype = ''html'', qvalue = Fin (- 1), order = 0\<rparr> = qvalue a)) \<and>
   (qvalue \<lparr>range_str = ''image/png'', type = ''image'', subtype = ''png'', qvalue = Fin 0, order = 1\<rparr> = Fin 0 \<or>
    inSpecRange (qvalue \<lparr>range_str = ''image/png'', type = ''image'', subtype = ''png'', qvalue = Fin 0, order = 1\<rparr>))"
proof -
  let ?a = "\<lparr>range_str = ''text/html'', type = ''text'', subtype = ''html'', qvalue = Fin (1 / 2), order = 0\<rparr>"
  let ?w = "\<lparr>range_str = ''text/*'', type = ''text'', subtype = ''*'', qvalue = Fin (- 1), order = 0\<rparr>"
  let ?c = "\<lparr>range_str = ''text/html'', type = ''text'', subtype = ''html'', qvalue = Fin (- 1), order = 0\<rparr>"
  let ?d = "\<lparr>range_str = ''image/png'', type = ''image'', subtype = ''png'', qvalue = Fin 0, order = 1\<rparr>"
  have h1: "?a \<in> set (acceptedContentTypes stof_sample ''text/html;q=0.5'') \<and> qvalue ?a \<noteq> NaN"
    by code_simp
  have h2: "?c \<in> set (selectLoop [?w] 0 [''text/html'', ''image/png''])"
    by code_simp
  have h3: "?d \<in> set (selectedContentTypes insertion_sort
      (std_sort insertion_sort compareContentTypes (acceptedContentTypes stof_sample ''text/html;q=0.5''))
      [''text/html'', ''image/png'']) \<and> qvalue ?d \<noteq> NaN"
    by code_simp
  from h1 h2 h3 keepsElements_insertion_sort
    qvalue_ranges [of stof_sample "''text/html;q=0.5''" "[?w]" 0 "[''text/html'', ''image/png'']"
      insertion_sort]
  show ?thesis by blast
qed

text \<open>
  The claim as stated fails: a candidate that no accepted range matches keeps the
  initial quality \<open>0\<close>, which is neither the sentinel nor in \<open>[0.001, 1]\<close>.
\<close>

theorem qvalue_ranges_counterexample:
  "selectedContentTypes insertion_sort
     (std_sort insertion_sort compareContentTypes (acceptedContentTypes stof_sample ''text/html''))
     [''image/png'']
   = [\<lparr>range_str = ''image/png'', type = ''image'', subtype = ''png'', qvalue = Fin 0, order = 0\<rparr>] \<and>
   \<not> inSpecRange (Fin 0)"
  by code_simp

text \<open>
  A quality parameter that \<^verbatim>\<open>std::stof\<close> converts to NaN passes both tests of the
  normalization and is stored as it is.
\<close>

lemma nan_quality_is_stored:
  "acceptedContentTypes stof_sample ''a/b;q=nan'' =
     [\<lparr>range_str = ''a/b'', type = ''a'', subtype = ''b'', qvalue = NaN, order = 0\<rparr>]"
  by code_simp

subsection \<open>Auxiliary facts: the sort commutes with a relabelling the comparator ignores\<close>

lemma linear_insert_map:
  assumes "\<forall>a b. cmp (f a) (f b) = cmp a b"
  shows "linear_insert cmp (f v) (map f ys) = map f (linear_insert cmp v ys)"
  using assms by (induction ys) simp_all

lemma insert_step_map:
  assumes "\<forall>a b. cmp (f a) (f b) = cmp a b"
  shows "insert_step cmp (map f pre) (f v) = map f (insert_step cmp pre v)"
proof (cases pre)
  case Nil
  then show ?thesis by (simp add: insert_step_def)
next
  case (Cons x xs)
  have "linear_insert cmp (f v) (rev (map f pre)) = map f (linear_insert cmp v (rev pre))"
    using linear_insert_map [of cmp f v "rev pre"] assms by (simp add: rev_map)
  then show ?thesis using Cons assms by (simp add: insert_step_def rev_map)
qed

lemma insertion_sort_map:
  assumes "\<forall>a b. cmp (f a) (f b) = cmp a b"
  shows "insertion_sort cmp (map f xs) = map f (insertion_sort cmp xs)"
proof (induction xs rule: rev_induct)
  case Nil
  show ?case by (simp add: insertion_sort_Nil)
next
  case (snoc x xs)
  have "insertion_sort cmp (map f (xs @ [x])) = insert_step cmp (insertion_sort cmp (map f xs)) (f x)"
    by (simp add: insertion_sort_def)
  also have "\<dots> = map f (insert_step cmp (insertion_sort cmp xs) x)"
    unfolding snoc.IH using assms by (rule insert_step_map)
  finally show ?case by (simp add: insertion_sort_snoc)
qed

lemma commutesWithRelabelling_insertion_sort: "commutesWithRelabelling insertion_sort"
  unfolding commutesWithRelabelling_def
  by (intro allI impI) (rule insertion_sort_map)

lemma std_sort_map:
  assumes "commutesWithRelabelling lib" and "\<forall>a b. cmp (f a) (f b) = cmp a b"
  shows "std_sort lib cmp (map f xs) = map f (std_sort lib cmp xs)"
proof (cases "length xs \<le> 16")
  case True
  then show ?thesis using insertion_sort_map [OF assms(2)] by (simp add: std_sort_def)
next
  case False
  from assms have "lib cmp (map f xs) = map f (lib cmp xs)"
    unfolding commutesWithRelabelling_def by blast
  with False show ?thesis by (simp add: std_sort_def)
qed

subsection \<open>Auxiliary facts: a token with an unparseable quality is dropped\<close>

lemma parseParam_unparseable:
  assumes "unparseableQ stof p"
  shows "parseParam stof (ct, False) p = None"
proof (rule ccontr)
  assume "parseParam stof (ct, False) p \<noteq> None"
  then obtain st' where s: "parseParam stof (ct, False) p = Some st'" by auto
  from assms obtain v where q: "isQualityParam p" and v: "paramValue p = Some v"
    and n: "stringToFloat stof v = None"
    by (auto simp: unparseableQ_def split: option.splits)
  from parseParam_quality [OF s q v] n show False by simp
qed

lemma paramLoop_unparseable:
  assumes "\<exists>p\<in>set ps. unparseableQ stof p"
  shows "paramLoop stof (ct, False) ps = None"
  using assms
proof (induction ps arbitrary: ct)
  case Nil
  then show ?case by simp
next
  case (Cons p ps)
  show ?case
  proof (cases "parseParam stof (ct, False) p")
    case None
    then show ?thesis by simp
  next
    case (Some st1)
    from parseParam_rest_shape [OF Some] obtain q where e: "st1 = (ct\<lparr>qvalue := q\<rparr>, False)"
      by blast
    from Some parseParam_unparseable [of stof p ct] have "\<not> unparseableQ stof p" by auto
    with Cons.prems have "\<exists>p\<in>set ps. unparseableQ stof p" by simp
    from Cons.IH [OF this, of "ct\<lparr>qvalue := q\<rparr>"] Some e show ?thesis by simp
  qed
qed

lemma parseToken_unparseable:
  assumes "hasUnparseableQ stof t"
  shows "parseToken stof n t = None"
proof (cases "getlines CHR '';'' [] (trim t)")
  case Nil
  with assms show ?thesis by (simp add: hasUnparseableQ_def)
next
  case (Cons p ps)
  with assms have b: "\<exists>p\<in>set ps. unparseableQ stof p"
    by (simp add: hasUnparseableQ_def list_ex_iff)
  define ct0 where "ct0 = \<lparr>range_str = trim t, type = [], subtype = [], qvalue = Fin 1, order = n\<rparr>"
  show ?thesis
  proof (cases "parseParam stof (ct0, True) p")
    case None
    with Cons show ?thesis by (simp add: parseToken_def Let_def ct0_def)
  next
    case (Some st1)
    from parseParam_first [OF Some] have "st1 = (fst st1, False)" by (cases st1) simp
    with paramLoop_unparseable [OF b, of "fst st1"] have "paramLoop stof st1 ps = None" by simp
    with Some Cons show ?thesis by (simp add: parseToken_def Let_def ct0_def)
  qed
qed

subsection \<open>Auxiliary facts: the position of a token only sets the order field\<close>

lemma parseParam_order:
  "parseParam stof (ct\<lparr>order := m\<rparr>, b) p =
     map_option (\<lambda>st. ((fst st)\<lparr>order := m\<rparr>, snd st)) (parseParam stof (ct, b) p)"
  by (simp add: parseParam_def Let_def split: option.splits)

lemma paramLoop_order:
  "paramLoop stof ((fst st)\<lparr>order := m\<rparr>, snd st) ps =
     map_option (\<lambda>st. ((fst st)\<lparr>order := m\<rparr>, snd st)) (paramLoop stof st ps)"
proof (induction ps arbitrary: st)
  case Nil
  show ?case by simp
next
  case (Cons p ps)
  show ?case
  proof (cases "parseParam stof st p")
    case None
    then show ?thesis
      using parseParam_order [where stof = stof and ct = "fst st" and m = m and b = "snd st" and p = p]
      by simp
  next
    case (Some st1)
    then show ?thesis
      using parseParam_order [where stof = stof and ct = "fst st" and m = m and b = "snd st" and p = p]
        Cons.IH [of st1] by simp
  qed
qed

lemma parseToken_order:
  "parseToken stof m t = map_option (\<lambda>e. e\<lparr>order := m\<rparr>) (parseToken stof n t)"
proof -
  define ct0 where "ct0 = \<lparr>range_str = trim t, type = [], subtype = [], qvalue = Fin 1, order = n\<rparr>"
  have "paramLoop stof ((fst (ct0, True))\<lparr>order := m\<rparr>, snd (ct0, True)) (getlines CHR '';'' [] (trim t)) =
     map_option (\<lambda>st. ((fst st)\<lparr>order := m\<rparr>, snd st))
       (paramLoop stof (ct0, True) (getlines CHR '';'' [] (trim t)))"
    by (rule paramLoop_order)
  then show ?thesis
    by (simp add: parseToken_def Let_def ct0_def split: option.splits)
qed

subsection \<open>Removing a token whose quality does not convert\<close>

lemma parseTokens_append:
  "parseTokens stof n (xs @ ys) = parseTokens stof n xs @ parseTokens stof (n + int (length xs)) ys"
proof (induction xs arbitrary: n)
  case Nil
  show ?case by simp
next
  case (Cons x xs)
  have "n + 1 + int (length xs) = n + int (length (x # xs))" by simp
  with Cons.IH [of "n + 1"] show ?case by (simp split: option.splits)
qed

lemma parseTokens_orders:
  assumes "e \<in> set (parseTokens stof n ts)"
  shows "n \<le> order e \<and> order e < n + int (length ts)"
  using assms
proof (induction ts arbitrary: n)
  case Nil
  then show ?case by simp
next
  case (Cons t ts)
  show ?case
  proof (cases "e \<in> set (parseTokens stof (n + 1) ts)")
    case True
    from Cons.IH [OF True] show ?thesis by simp
  next
    case False
    with Cons.prems have "parseToken stof n t = Some e" by (auto split: option.splits)
    from parseToken_shape [OF this] show ?thesis by simp
  qed
qed

lemma parseTokens_shift:
  "parseTokens stof (n + 1) ts = map (\<lambda>e. e\<lparr>order := order e + 1\<rparr>) (parseTokens stof n ts)"
proof (induction ts arbitrary: n)
  case Nil
  show ?case by simp
next
  case (Cons t ts)
  show ?case
  proof (cases "parseToken stof n t")
    case None
    then have "parseToken stof (n + 1) t = None"
      using parseToken_order [of stof "n + 1" t n] by simp
    with None Cons.IH [of "n + 1"] show ?thesis by simp
  next
    case (Some e)
    from parseToken_shape [OF Some] have o: "order e = n" by simp
    from Some have "parseToken stof (n + 1) t = Some (e\<lparr>order := n + 1\<rparr>)"
      using parseToken_order [of stof "n + 1" t n] by simp
    with Some o Cons.IH [of "n + 1"] show ?thesis by simp
  qed
qed

lemma bumpOrder_below:
  assumes "\<forall>e\<in>set xs. order e < m"
  shows "map (bumpOrder m) xs = xs"
  using assms by (induction xs) (simp_all add: bumpOrder_def)

lemma bumpOrder_above:
  assumes "\<forall>e\<in>set xs. m \<le> order e"
  shows "map (bumpOrder m) xs = map (\<lambda>e. e\<lparr>order := order e + 1\<rparr>) xs"
  using assms by (induction xs) (simp_all add: bumpOrder_def)

lemma parseTokens_removed:
  assumes "parseToken stof (int (length ts1)) t = None"
  shows "parseTokens stof 0 (ts1 @ t # ts2) =
         map (bumpOrder (int (length ts1))) (parseTokens stof 0 (ts1 @ ts2))"
proof -
  let ?m = "int (length ts1)"
  let ?A1 = "parseTokens stof 0 ts1"
  let ?A2 = "parseTokens stof ?m ts2"
  have "\<forall>e\<in>set ?A1. order e < ?m" using parseTokens_orders [of _ stof 0 ts1] by auto
  then have a1: "map (bumpOrder ?m) ?A1 = ?A1" by (rule bumpOrder_below)
  have "\<forall>e\<in>set ?A2. ?m \<le> order e" using parseTokens_orders [of _ stof ?m ts2] by auto
  then have "map (bumpOrder ?m) ?A2 = map (\<lambda>e. e\<lparr>order := order e + 1\<rparr>) ?A2"
    by (rule bumpOrder_above)
  then have a2: "map (bumpOrder ?m) ?A2 = parseTokens stof (?m + 1) ts2"
    by (simp add: parseTokens_shift)
  have "parseTokens stof 0 (ts1 @ t # ts2) = ?A1 @ parseTokens stof (?m + 1) ts2"
    using assms by (simp add: parseTokens_append)
  also have "\<dots> = map (bumpOrder ?m) (?A1 @ ?A2)" using a1 a2 by simp
  also have "?A1 @ ?A2 = parseTokens stof 0 (ts1 @ ts2)" by (simp add: parseTokens_append)
  finally show ?thesis .
qed

lemma bumpOrder_fields:
  "range_str (bumpOrder m e) = range_str e" "type (bumpOrder m e) = type e"
  "subtype (bumpOrder m e) = subtype e" "qvalue (bumpOrder m e) = qvalue e"
  by (simp_all add: bumpOrder_def)

lemma bumpOrder_less: "order (bumpOrder m a) < order (bumpOrder m b) \<longleftrightarrow> order a < order b"
  by (auto simp: bumpOrder_def)

lemma compare_bumpOrder:
  "compareContentTypes (bumpOrder m a) (bumpOrder m b) = compareContentTypes a b"
  by (simp add: compareContentTypes_def bumpOrder_fields bumpOrder_less)

lemma matchStep_bumpOrder: "matchStep sel st (bumpOrder m a) = matchStep sel st a"
  by (simp only: matchStep_def bumpOrder_fields)

lemma matchLoop_bumpOrder:
  "matchLoop sel st (map (bumpOrder m) accepted) = matchLoop sel st accepted"
  unfolding matchLoop_def
  by (induction accepted arbitrary: st) (simp_all add: matchStep_bumpOrder)

lemma selectLoop_bumpOrder:
  "selectLoop (map (bumpOrder m) accepted) n av = selectLoop accepted n av"
  by (induction av arbitrary: n) (simp_all add: matchLoop_bumpOrder Let_def split: option.splits)

lemma getPreferable_bumpOrder:
  "getPreferableContentType lib (map (bumpOrder m) accepted) av =
     getPreferableContentType lib accepted av"
  by (simp add: getPreferableContentType_def selectedContentTypes_def selectLoop_bumpOrder)

text \<open>
  C6 (as amended). If a comma token of the header has a quality parameter whose value
  does not convert, then parse gives the same result on every non-empty header whose
  comma tokens are those of the original header with that token removed, for the same
  available list. Above 16 accepted ranges the library sort is assumed to be a
  comparison sort: it commutes with a renumbering that leaves every comparison as it is.
\<close>

theorem unparseable_token_removed:
  assumes "getlines CHR '','' [] h = ts1 @ t # ts2"
    and "hasUnparseableQ stof t"
    and "getlines CHR '','' [] h' = ts1 @ ts2"
    and "h' \<noteq> []"
    and "commutesWithRelabelling lib"
  shows "parse stof lib h av = parse stof lib h' av"
proof -
  let ?m = "int (length ts1)"
  from assms(1) have hne: "h \<noteq> []" by auto
  from assms(2) have "parseToken stof ?m t = None" by (rule parseToken_unparseable)
  then have "acceptedContentTypes stof h = map (bumpOrder ?m) (acceptedContentTypes stof h')"
    unfolding acceptedContentTypes_def assms(1) assms(3) by (rule parseTokens_removed)
  moreover have "\<forall>a b. compareContentTypes (bumpOrder ?m a) (bumpOrder ?m b) = compareContentTypes a b"
    by (simp add: compare_bumpOrder)
  ultimately have "std_sort lib compareContentTypes (acceptedContentTypes stof h) =
      map (bumpOrder ?m) (std_sort lib compareContentTypes (acceptedContentTypes stof h'))"
    using std_sort_map [OF assms(5), of compareContentTypes "bumpOrder ?m"] by simp
  then show ?thesis
    using hne assms(4) by (simp add: parse_def getPreferable_bumpOrder)
qed

theorem unparseable_token_removed_witness:
  "parse stof_sample insertion_sort ''text/html;q=0.5, image/png;q=abc, image/gif''
       [''image/gif'', ''image/png'', ''text/html'']
     = parse stof_sample insertion_sort ''text/html;q=0.5, image/gif''
       [''image/gif'', ''image/png'', ''text/html'']"
proof -
  have h1: "getlines CHR '','' [] ''text/html;q=0.5, image/png;q=abc, image/gif'' =
      [''text/html;q=0.5''] @ '' image/png;q=abc'' # ['' image/gif'']" by code_simp
  have h2: "hasUnparseableQ stof_sample '' image/png;q=abc''" by code_simp
  have h3: "getlines CHR '','' [] ''text/html;q=0.5, image/gif'' =
      [''text/html;q=0.5''] @ ['' image/gif'']" by code_simp
  have h4: "''text/html;q=0.5, image/gif'' \<noteq> []" by simp
  from unparseable_token_removed [OF h1 h2 h3 h4 commutesWithRelabelling_insertion_sort]
  show ?thesis .
qed

text \<open>
  The claim as stated fails when the token is the only one: removing it leaves the
  empty header, on which parse returns the first available entry as supplied, while
  the original header goes through negotiation and returns the normalized candidate.
\<close>

theorem unparseable_token_removed_counterexample:
  "getlines CHR '','' [] ''text/html;q=abc'' = [] @ ''text/html;q=abc'' # [] \<and>
   hasUnparseableQ stof_sample ''text/html;q=abc'' \<and>
   getlines CHR '','' [] [] = [] @ [] \<and>
   parse stof_sample insertion_sort ''text/html;q=abc'' [''Text/HTML''] = ''text/html'' \<and>
   parse stof_sample insertion_sort [] [''Text/HTML''] = ''Text/HTML''"
  by code_simp

subsection \<open>Auxiliary facts: the comparator and the qualities\<close>

lemma f_eq_not_less: "f_eq x y \<Longrightarrow> \<not> f_less x y \<and> \<not> f_less y x"
  by (cases x; cases y) auto

lemma f_less_not_NaN: "f_less x y \<Longrightarrow> x \<noteq> NaN \<and> y \<noteq> NaN"
  by (cases x; cases y) auto

lemma f_less_asym: "f_less x y \<Longrightarrow> \<not> f_less y x"
  by (cases x; cases y) auto

lemma f_trichotomy: "x \<noteq> NaN \<Longrightarrow> y \<noteq> NaN \<Longrightarrow> f_less x y \<or> f_eq x y \<or> f_less y x"
  by (cases x; cases y) auto

lemma f_less_le_trans: "f_less x d \<Longrightarrow> \<not> f_less x c \<Longrightarrow> c \<noteq> NaN \<Longrightarrow> f_less c d"
  by (cases x; cases d; cases c) auto

lemma f_le_trans:
  "\<not> f_less y x \<Longrightarrow> \<not> f_less z y \<Longrightarrow> y \<noteq> NaN \<Longrightarrow> \<not> f_less z x"
  by (cases x; cases y; cases z) auto

lemma compare_eq_spec: "compareContentTypes a b = precedes_spec a b"
proof (cases "f_eq (qvalue a) (qvalue b)")
  case True
  then show ?thesis
    using f_eq_not_less [OF True]
    by (simp add: compareContentTypes_def precedes_spec_def f_neq_def f_greater_def)
next
  case False
  then show ?thesis
    by (simp add: compareContentTypes_def precedes_spec_def f_neq_def f_greater_def)
qed

lemma compare_quality:
  assumes "compareContentTypes a b"
  shows "qvalue a \<noteq> NaN \<and> qvalue b \<noteq> NaN \<and> \<not> f_less (qvalue a) (qvalue b)"
  using assms unfolding compare_eq_spec precedes_spec_def f_greater_def
  by (cases "qvalue a"; cases "qvalue b") (auto split: if_splits)

lemma less_quality_compare:
  assumes "f_less (qvalue b) (qvalue a)"
  shows "compareContentTypes a b"
  using assms by (simp add: compare_eq_spec precedes_spec_def f_greater_def)

lemma compare_irrefl: "\<not> compareContentTypes a a"
  by (cases "qvalue a") (simp_all add: compare_eq_spec precedes_spec_def f_greater_def)

lemma compare_asym:
  assumes "compareContentTypes a b"
  shows "\<not> compareContentTypes b a"
proof (cases "f_eq (qvalue a) (qvalue b)")
  case True
  then have e: "f_eq (qvalue b) (qvalue a)" by (cases "qvalue a"; cases "qvalue b") auto
  from f_eq_not_less [OF True] assms True e show ?thesis
    unfolding compare_eq_spec precedes_spec_def f_greater_def
    by (auto split: if_splits)
next
  case False
  then have e: "\<not> f_eq (qvalue b) (qvalue a)" by (cases "qvalue a"; cases "qvalue b") auto
  from assms False have "f_less (qvalue b) (qvalue a)"
    by (simp add: compare_eq_spec precedes_spec_def f_greater_def)
  then have "\<not> f_less (qvalue a) (qvalue b)" by (rule f_less_asym)
  with e show ?thesis by (simp add: compare_eq_spec precedes_spec_def f_greater_def)
qed

lemma compare_connected:
  assumes "order a \<noteq> order b" and "qvalue a \<noteq> NaN" and "qvalue b \<noteq> NaN"
  shows "compareContentTypes a b \<or> compareContentTypes b a"
proof -
  from f_trichotomy [OF assms(2,3)] consider
    "f_less (qvalue a) (qvalue b)" | "f_less (qvalue b) (qvalue a)" | "f_eq (qvalue a) (qvalue b)"
    by blast
  then show ?thesis
  proof cases
    case 1 then show ?thesis using less_quality_compare by blast
  next
    case 2 then show ?thesis using less_quality_compare by blast
  next
    case 3
    then have e: "f_eq (qvalue b) (qvalue a)" by (cases "qvalue a"; cases "qvalue b") auto
    from assms(1) have "order a < order b \<or> order b < order a" by auto
    with 3 e show ?thesis
      unfolding compare_eq_spec precedes_spec_def by auto
  qed
qed

subsection \<open>Auxiliary facts: the sorted candidates\<close>

lemma linear_insert_snoc:
  assumes "\<not> cmp v c"
  shows "linear_insert cmp v (ys @ [c]) = linear_insert cmp v ys @ [c]"
  using assms by (induction ys) simp_all

lemma insert_step_keeps_head:
  assumes "\<not> cmp v c"
  shows "insert_step cmp (c # cs) v = c # rev (linear_insert cmp v (rev cs))"
  using assms by (simp add: insert_step_def linear_insert_snoc)

lemma insert_step_new_head:
  assumes "cmp v c"
  shows "insert_step cmp (c # cs) v = v # c # cs"
  using assms by (simp add: insert_step_def)

text \<open>The head of the sorted list: no element has a quality above the head's.\<close>

lemma insert_step_head_best:
  assumes "\<forall>d\<in>set cs. \<not> f_less (qvalue c) (qvalue d)"
  shows "\<exists>c' cs'. insert_step compareContentTypes (c # cs) v = c' # cs' \<and>
           (\<forall>d\<in>set cs'. \<not> f_less (qvalue c') (qvalue d))"
proof (cases "compareContentTypes v c")
  case True
  from compare_quality [OF True] have nv: "qvalue v \<noteq> NaN" and nc: "qvalue c \<noteq> NaN"
    and le: "\<not> f_less (qvalue v) (qvalue c)" by simp_all
  have "\<forall>d\<in>set (c # cs). \<not> f_less (qvalue v) (qvalue d)"
  proof
    fix d assume d: "d \<in> set (c # cs)"
    show "\<not> f_less (qvalue v) (qvalue d)"
    proof
      assume l: "f_less (qvalue v) (qvalue d)"
      from f_less_le_trans [OF l le nc] have "f_less (qvalue c) (qvalue d)" .
      with d assms le l show False using f_less_asym by auto
    qed
  qed
  with insert_step_new_head [of compareContentTypes v c cs] True show ?thesis by blast
next
  case False
  then have "\<not> f_less (qvalue c) (qvalue v)" using less_quality_compare by blast
  moreover have "set (rev (linear_insert compareContentTypes v (rev cs))) = insert v (set cs)"
    by (simp add: set_linear_insert)
  ultimately have "\<forall>d\<in>set (rev (linear_insert compareContentTypes v (rev cs))).
      \<not> f_less (qvalue c) (qvalue d)" using assms by auto
  with insert_step_keeps_head [of compareContentTypes v c cs] False show ?thesis by blast
qed

lemma insertion_sort_head_best:
  assumes "insertion_sort compareContentTypes xs = c # cs"
  shows "\<forall>d\<in>set cs. \<not> f_less (qvalue c) (qvalue d)"
  using assms
proof (induction xs arbitrary: c cs rule: rev_induct)
  case Nil
  then show ?case by (simp add: insertion_sort_Nil)
next
  case (snoc x xs)
  show ?case
  proof (cases "insertion_sort compareContentTypes xs")
    case Nil
    with snoc.prems show ?thesis by (simp add: insertion_sort_snoc insert_step_def)
  next
    case (Cons c0 cs0)
    from snoc.IH [OF Cons] have "\<forall>d\<in>set cs0. \<not> f_less (qvalue c0) (qvalue d)" .
    from insert_step_head_best [OF this, of x] snoc.prems Cons show ?thesis
      by (auto simp: insertion_sort_snoc)
  qed
qed

text \<open>Without NaN the sorted list never has a quality below a later one.\<close>

lemma linear_insert_quality_sorted:
  assumes "sorted_wrt (\<lambda>x y. \<not> f_less (qvalue y) (qvalue x)) ys"
    and "\<forall>d\<in>set ys. qvalue d \<noteq> NaN"
  shows "sorted_wrt (\<lambda>x y. \<not> f_less (qvalue y) (qvalue x)) (linear_insert compareContentTypes v ys)"
  using assms
proof (induction ys)
  case Nil
  show ?case by simp
next
  case (Cons y ys)
  show ?case
  proof (cases "compareContentTypes v y")
    case True
    from compare_quality [OF True] have "\<not> f_less (qvalue v) (qvalue y)" by simp
    with Cons show ?thesis using True by (auto simp: set_linear_insert)
  next
    case False
    then have vy: "\<not> f_less (qvalue y) (qvalue v)" using less_quality_compare by blast
    have "\<forall>z\<in>set ys. \<not> f_less (qvalue z) (qvalue v)"
    proof
      fix z assume "z \<in> set ys"
      with Cons.prems have "\<not> f_less (qvalue z) (qvalue y)" "qvalue y \<noteq> NaN" by auto
      with vy show "\<not> f_less (qvalue z) (qvalue v)" using f_le_trans by blast
    qed
    with vy Cons.prems False show ?thesis by simp
  qed
qed

lemma insert_step_quality_sorted:
  assumes "sorted_wrt (\<lambda>x y. \<not> f_less (qvalue x) (qvalue y)) pre"
    and "\<forall>d\<in>set pre. qvalue d \<noteq> NaN"
  shows "sorted_wrt (\<lambda>x y. \<not> f_less (qvalue x) (qvalue y)) (insert_step compareContentTypes pre v)"
proof (cases pre)
  case Nil
  then show ?thesis by (simp add: insert_step_def)
next
  case (Cons c cs)
  show ?thesis
  proof (cases "compareContentTypes v c")
    case True
    from compare_quality [OF True] have nc: "qvalue c \<noteq> NaN"
      and le: "\<not> f_less (qvalue v) (qvalue c)" by simp_all
    have "\<forall>d\<in>set pre. \<not> f_less (qvalue v) (qvalue d)"
    proof
      fix d assume d: "d \<in> set pre"
      show "\<not> f_less (qvalue v) (qvalue d)"
      proof
        assume l: "f_less (qvalue v) (qvalue d)"
        from f_less_le_trans [OF l le nc] have "f_less (qvalue c) (qvalue d)" .
        with d assms(1) Cons le l show False using f_less_asym by auto
      qed
    qed
    with assms(1) True Cons show ?thesis by (simp add: insert_step_def)
  next
    case False
    have "sorted_wrt (\<lambda>x y. \<not> f_less (qvalue y) (qvalue x)) (rev pre)"
      using assms(1) by (simp add: sorted_wrt_rev)
    moreover have "\<forall>d\<in>set (rev pre). qvalue d \<noteq> NaN" using assms(2) by simp
    ultimately have "sorted_wrt (\<lambda>x y. \<not> f_less (qvalue y) (qvalue x))
        (linear_insert compareContentTypes v (rev pre))"
      by (rule linear_insert_quality_sorted)
    then have "sorted_wrt (\<lambda>x y. \<not> f_less (qvalue x) (qvalue y))
        (rev (linear_insert compareContentTypes v (rev pre)))"
      by (simp add: sorted_wrt_rev)
    with False Cons show ?thesis by (simp add: insert_step_def)
  qed
qed

lemma insertion_sort_quality_sorted:
  assumes "\<forall>d\<in>set xs. qvalue d \<noteq> NaN"
  shows "sorted_wrt (\<lambda>x y. \<not> f_less (qvalue x) (qvalue y)) (insertion_sort compareContentTypes xs)"
  using assms
proof (induction xs rule: rev_induct)
  case Nil
  show ?case by (simp add: insertion_sort_Nil)
next
  case (snoc x xs)
  then have "sorted_wrt (\<lambda>x y. \<not> f_less (qvalue x) (qvalue y)) (insertion_sort compareContentTypes xs)"
    by simp
  moreover from snoc.prems have "\<forall>d\<in>set (insertion_sort compareContentTypes xs). qvalue d \<noteq> NaN"
    by (simp add: set_insertion_sort)
  ultimately show ?case unfolding insertion_sort_snoc by (rule insert_step_quality_sorted)
qed

lemma compare_rejected:
  assumes "qvalue a = Fin (- 1)" and "atLeastZero (qvalue b)"
  shows "\<not> compareContentTypes a b \<and> compareContentTypes b a"
proof -
  from assms have l: "f_less (qvalue a) (qvalue b)"
    by (cases "qvalue b") (auto simp: atLeastZero_def f_greater_def)
  then have "compareContentTypes b a" by (rule less_quality_compare)
  then show ?thesis using compare_asym by blast
qed

lemma rejected_head:
  assumes "insertion_sort compareContentTypes xs = c # cs" and "qvalue c = Fin (- 1)"
  shows "\<forall>d\<in>set cs. \<not> atLeastZero (qvalue d)"
proof
  fix d assume "d \<in> set cs"
  with insertion_sort_head_best [OF assms(1)] assms(2) have n: "\<not> f_less (Fin (- 1)) (qvalue d)" by auto
  show "\<not> atLeastZero (qvalue d)"
  proof
    assume "atLeastZero (qvalue d)"
    then have "f_less (Fin (- 1)) (qvalue d)"
      by (cases "qvalue d") (auto simp: atLeastZero_def f_greater_def)
    with n show False by simp
  qed
qed

subsection \<open>Ranking of the candidates\<close>

text \<open>
  What does hold of the ranking on at most 16 candidates, where the sort is the
  insertion sort: a rejected head means that no candidate has a quality of zero or
  more, and without NaN among the qualities the ranking never places a candidate
  before one of higher quality.
\<close>

lemma small_ranking_head:
  assumes "length (selectLoop accepted 0 av) \<le> 16"
    and "selectedContentTypes lib accepted av = c # cs" and "qvalue c = Fin (- 1)"
  shows "\<forall>d\<in>set cs. \<not> atLeastZero (qvalue d)"
proof -
  from assms(1,2) have "insertion_sort compareContentTypes (selectLoop accepted 0 av) = c # cs"
    by (simp add: selectedContentTypes_def std_sort_small)
  then show ?thesis using assms(3) by (rule rejected_head)
qed

lemma small_ranking_sorted:
  assumes "length (selectLoop accepted 0 av) \<le> 16"
    and "\<forall>d\<in>set (selectLoop accepted 0 av). qvalue d \<noteq> NaN"
  shows "sorted_wrt (\<lambda>x y. \<not> f_less (qvalue x) (qvalue y)) (selectedContentTypes lib accepted av)"
proof -
  from assms(1) have "selectedContentTypes lib accepted av =
      insertion_sort compareContentTypes (selectLoop accepted 0 av)"
    by (simp add: selectedContentTypes_def std_sort_small)
  with insertion_sort_quality_sorted [OF assms(2)] show ?thesis by simp
qed

text \<open>
  C10, evaluated on the header \<^verbatim>\<open>a/a;q=nan, b/b;q=0, c/c;q=nan, d/d;q=0.5\<close> with the
  available types \<^verbatim>\<open>a/a\<close>, \<^verbatim>\<open>b/b\<close>, \<^verbatim>\<open>c/c\<close>, \<^verbatim>\<open>d/d\<close>. The claim is that a
  rejected candidate (quality \<open>-1\<close>) never stands before a candidate of quality zero
  or more in the final ranking. Here the quality NaN, which the normalization lets
  through, makes every comparison with it false, so each candidate stays where it
  arrives: the final ranking is \<^verbatim>\<open>a/a\<close> (NaN), \<^verbatim>\<open>b/b\<close> (\<open>-1\<close>), \<^verbatim>\<open>c/c\<close> (NaN),
  \<^verbatim>\<open>d/d\<close> (one half), the rejected \<^verbatim>\<open>b/b\<close> stands before \<^verbatim>\<open>d/d\<close>, and \<^verbatim>\<open>a/a\<close> is
  returned.
\<close>

theorem rejected_before_accepted:
  "map (\<lambda>c. (range_str c, qvalue c))
     (selectedContentTypes insertion_sort
        (std_sort insertion_sort compareContentTypes
           (acceptedContentTypes stof_sample ''a/a;q=nan, b/b;q=0, c/c;q=nan, d/d;q=0.5''))
        [''a/a'', ''b/b'', ''c/c'', ''d/d''])
     = [(''a/a'', NaN), (''b/b'', Fin (- 1)), (''c/c'', NaN), (''d/d'', Fin (1 / 2))] \<and>
   atLeastZero (Fin (1 / 2)) \<and>
   parse stof_sample insertion_sort ''a/a;q=nan, b/b;q=0, c/c;q=nan, d/d;q=0.5''
     [''a/a'', ''b/b'', ''c/c'', ''d/d''] = ''a/a''"
  by code_simp

text \<open>
  C5, evaluated on the header \<^verbatim>\<open>text/html, application/json, text/*\<close>. The three
  accepted entries have quality 1 and the orders 0, 1, 2. The comparator puts
  \<^verbatim>\<open>text/*\<close> before \<^verbatim>\<open>text/html\<close> (wildcard subtype), \<^verbatim>\<open>text/html\<close> before
  \<^verbatim>\<open>application/json\<close> (order) and \<^verbatim>\<open>application/json\<close> before \<^verbatim>\<open>text/*\<close>
  (order): a cycle, so it is not transitive on entries with distinct orders. The
  precedence itself is as specified (\<open>compare_eq_spec\<close>), and the comparator is
  irreflexive, asymmetric and, on numeric qualities and distinct orders, connected.
\<close>

theorem compare_cycle:
  "acceptedContentTypes stof_sample ''text/html, application/json, text/*'' =
     [\<lparr>range_str = ''text/html'', type = ''text'', subtype = ''html'', qvalue = Fin 1, order = 0\<rparr>,
      \<lparr>range_str = ''application/json'', type = ''application'', subtype = ''json'', qvalue = Fin 1, order = 1\<rparr>,
      \<lparr>range_str = ''text/*'', type = ''text'', subtype = ''*'', qvalue = Fin 1, order = 2\<rparr>] \<and>
   compareContentTypes
     \<lparr>range_str = ''text/*'', type = ''text'', subtype = ''*'', qvalue = Fin 1, order = 2\<rparr>
     \<lparr>range_str = ''text/html'', type = ''text'', subtype = ''html'', qvalue = Fin 1, order = 0\<rparr> \<and>
   compareContentTypes
     \<lparr>range_str = ''text/html'', type = ''text'', subtype = ''html'', qvalue = Fin 1, order = 0\<rparr>
     \<lparr>range_str = ''application/json'', type = ''application'', subtype = ''json'', qvalue = Fin 1, order = 1\<rparr> \<and>
   compareContentTypes
     \<lparr>range_str = ''application/json'', type = ''application'', subtype = ''json'', qvalue = Fin 1, order = 1\<rparr>
     \<lparr>range_str = ''text/*'', type = ''text'', subtype = ''*'', qvalue = Fin 1, order = 2\<rparr> \<and>
   \<not> compareContentTypes
     \<lparr>range_str = ''text/html'', type = ''text'', subtype = ''html'', qvalue = Fin 1, order = 0\<rparr>
     \<lparr>range_str = ''text/*'', type = ''text'', subtype = ''*'', qvalue = Fin 1, order = 2\<rparr>"
  by code_simp

end
